theory Spec2Isabelle
  imports Main "HOL-Library.Word"
begin

unbundle bit_operations_syntax

section \<open>Machine types, constants and errors\<close>

text \<open>
  The host code of \<^verbatim>\<open>intra_node_comm.cu\<close> computes with \<^verbatim>\<open>size_t\<close> (64 bit) and passes
  sizes through helpers whose parameters are \<^verbatim>\<open>uint32_t\<close>.  Both are modelled as words,
  so every conversion (\<open>ucast\<close>) and every wrap-around of the source is in the model.
\<close>

type_synonym size_t = "64 word"
type_synonym uint32_t = "32 word"

text \<open>
  Everything that ends a host function other than by \<^verbatim>\<open>return\<close>: a failed
  \<^verbatim>\<open>TORCH_CHECK\<close>, the \<^verbatim>\<open>ValueError\<close> of \<^verbatim>\<open>allReduce\<close>, an integer division by zero
  (undefined behaviour in C++, a trap on the host), and a kernel launch that the
  runtime rejects (\<^verbatim>\<open>C10_CUDA_KERNEL_LAUNCH_CHECK\<close>).
\<close>

datatype error = TorchCheckFailed | ValueError | DivideByZero | LaunchFailure

definition kBytesPerThread :: size_t where "kBytesPerThread = 16"
definition kMaxAllReduceBlocks :: size_t where "kMaxAllReduceBlocks = 24"
definition kThreadsPerBlock :: size_t where "kThreadsPerBlock = 1024"
definition kWarpSize :: size_t where "kWarpSize = 32"

definition kHcmThreshBytes :: size_t where "kHcmThreshBytes = 256 * 1024"
definition kOneShotThreshBytes :: size_t where "kOneShotThreshBytes = 256 * 1024"
definition kTwoShotThreshBytes :: size_t where "kTwoShotThreshBytes = 10 * 1024 * 1024"

text \<open>
  Modelled from the spec: \<^verbatim>\<open>kMaxDevices\<close> is declared in \<^verbatim>\<open>intra_node_comm.hpp\<close>, which is
  not among the sources; the spec gives \<^verbatim>\<open>kMaxDevices = 8\<close>.
\<close>

definition kMaxDevices :: nat where "kMaxDevices = 8"

section \<open>Host-side arithmetic\<close>

text \<open>
  \<^verbatim>\<open>static inline size_t divUp(uint32_t a, uint32_t b) { return (a + b - 1) / b; }\<close>
  The sum and the quotient are 32-bit; the result is widened to \<^verbatim>\<open>size_t\<close>.
\<close>

definition divUp :: "uint32_t \<Rightarrow> uint32_t \<Rightarrow> error + size_t" where
  "divUp a b = (if b = 0 then Inl DivideByZero else Inr (ucast ((a + b - 1) div b)))"

text \<open>\<^verbatim>\<open>alignUp(a, b) = divUp(a, b) * b\<close>, the product taken in \<^verbatim>\<open>size_t\<close>.\<close>

definition alignUp :: "uint32_t \<Rightarrow> uint32_t \<Rightarrow> error + size_t" where
  "alignUp a b = (case divUp a b of Inl e \<Rightarrow> Inl e | Inr q \<Rightarrow> Inr (q * ucast b))"

text \<open>A \<^verbatim>\<open>dim3\<close>; \<^verbatim>\<open>getLaunchConfig\<close> starts both of its results as \<^verbatim>\<open>dim3(0, 1, 1)\<close>.\<close>

record dim3 =
  dim_x :: uint32_t
  dim_y :: uint32_t
  dim_z :: uint32_t

definition dim3_init :: dim3 where
  "dim3_init = \<lparr>dim_x = 0, dim_y = 1, dim_z = 1\<rparr>"

text \<open>
  \<^verbatim>\<open>getLaunchConfig(N_aligned, elemSize, blocks, threads)\<close>; the two reference parameters
  are returned as a pair \<open>(blocks, threads)\<close>.
\<close>

definition getLaunchConfig :: "size_t \<Rightarrow> size_t \<Rightarrow> error + (dim3 \<times> dim3)" where
  "getLaunchConfig N_aligned elemSize =
    (if elemSize = 0 then Inl DivideByZero
     else
       let numelPerThread = kBytesPerThread div elemSize;
           numelPerWarp = numelPerThread * kWarpSize
       in
         if numelPerThread = 0 then Inl DivideByZero
         else if N_aligned mod numelPerThread \<noteq> 0 then Inl TorchCheckFailed
         else if N_aligned mod numelPerWarp \<noteq> 0 then Inl TorchCheckFailed
         else if N_aligned < numelPerThread * kThreadsPerBlock then
           Inr (dim3_init\<lparr>dim_x := 1\<rparr>,
                dim3_init\<lparr>dim_x := ucast (N_aligned div numelPerWarp * kWarpSize)\<rparr>)
         else
           let warpsRequired = N_aligned div numelPerWarp;
               threadsRequired = N_aligned div numelPerThread
           in
             case divUp (ucast threadsRequired) (ucast kThreadsPerBlock) of
               Inl e \<Rightarrow> Inl e
             | Inr blocksWanted \<Rightarrow>
                 let blocks_x = (ucast (min blocksWanted kMaxAllReduceBlocks) :: uint32_t) in
                   case divUp (ucast warpsRequired) blocks_x of
                     Inl e \<Rightarrow> Inl e
                   | Inr warpsPerBlock \<Rightarrow>
                       Inr (dim3_init\<lparr>dim_x := blocks_x\<rparr>,
                            dim3_init\<lparr>dim_x :=
                              ucast (min kThreadsPerBlock (warpsPerBlock * kWarpSize))\<rparr>))"

section \<open>Tensors, topologies and algorithms\<close>

text \<open>
  Modelled from the spec: \<^verbatim>\<open>at::Tensor\<close>, \<^verbatim>\<open>Topology\<close> and \<^verbatim>\<open>AllReduceAlgo\<close> are declared
  outside the sources at hand.  A tensor is described by the observers the code calls:
  \<^verbatim>\<open>dtype()\<close>, \<^verbatim>\<open>numel()\<close>, \<^verbatim>\<open>is_non_overlapping_and_dense()\<close>, \<^verbatim>\<open>device().is_cuda()\<close> and
  \<^verbatim>\<open>get_device()\<close>; \<^verbatim>\<open>element_size()\<close> is the size of the dtype.  \<^verbatim>\<open>numel()\<close> is a non-negative
  \<^verbatim>\<open>int64_t\<close>; it is kept as the \<^verbatim>\<open>size_t\<close> the code converts it to.  The spec names the
  algorithms None, OneShot, TwoShot, HCM and the topologies FullyConnected,
  HybridCubeMesh, Unsupported.
\<close>

datatype ScalarType = kByte | kChar | kShort | kInt | kLong | kHalf | kFloat | kDouble | kBFloat16

fun elementSize :: "ScalarType \<Rightarrow> size_t" where
  "elementSize kByte = 1"
| "elementSize kChar = 1"
| "elementSize kShort = 2"
| "elementSize kInt = 4"
| "elementSize kLong = 8"
| "elementSize kHalf = 2"
| "elementSize kFloat = 4"
| "elementSize kDouble = 8"
| "elementSize kBFloat16 = 2"

record Tensor =
  dtype :: ScalarType
  numel :: size_t
  is_non_overlapping_and_dense :: bool
  is_cuda :: bool
  get_device :: size_t

definition element_size :: "Tensor \<Rightarrow> size_t" where
  "element_size t = elementSize (dtype t)"

datatype Topology = UNSUPPORTED | FULLY_CONNECTED | HYBRID_CUBE_MESH

datatype AllReduceAlgo = NONE | ONE_SHOT | TWO_SHOT | HCM

section \<open>Algorithm selection\<close>

text \<open>
  \<^verbatim>\<open>selectAllReduceAlgo(input, topology, worldSize)\<close>.  \<^verbatim>\<open>kMaxIntraNodeSize\<close> is declared in
  the header, which is not among the sources, so it is a parameter.  The two \<^verbatim>\<open>if\<close> blocks
  of the source run one after the other: the first may return \<^verbatim>\<open>HCM\<close>, raise, or fall
  through (\<open>None\<close>).  Both arguments of \<^verbatim>\<open>alignUp\<close> are converted to \<^verbatim>\<open>uint32_t\<close>.
\<close>

definition selectAllReduceAlgo ::
  "size_t \<Rightarrow> Tensor \<Rightarrow> Topology \<Rightarrow> size_t \<Rightarrow> error + AllReduceAlgo" where
  "selectAllReduceAlgo kMaxIntraNodeSize input topology worldSize =
    (if dtype input \<noteq> kBFloat16 \<or> numel input * element_size input > kMaxIntraNodeSize
     then Inr NONE
     else
       let n = numel input;
           numelPerWarp = kBytesPerThread div element_size input * kWarpSize
       in
         case (if topology = HYBRID_CUBE_MESH then
                 (if worldSize \<noteq> 8 then Inl TorchCheckFailed
                  else case alignUp (ucast n) (ucast numelPerWarp) of
                         Inl e \<Rightarrow> Inl e
                       | Inr a \<Rightarrow> Inr (if a \<le> kHcmThreshBytes then Some HCM else None))
               else Inr None) of
           Inl e \<Rightarrow> Inl e
         | Inr (Some algo) \<Rightarrow> Inr algo
         | Inr None \<Rightarrow>
             (if topology = FULLY_CONNECTED then
                (case alignUp (ucast n) (ucast numelPerWarp) of
                   Inl e \<Rightarrow> Inl e
                 | Inr a \<Rightarrow>
                     if a \<le> kOneShotThreshBytes then Inr ONE_SHOT
                     else
                       (case alignUp (ucast n) (ucast (numelPerWarp * worldSize)) of
                          Inl e \<Rightarrow> Inl e
                        | Inr a2 \<Rightarrow>
                            if a2 \<le> kTwoShotThreshBytes then Inr TWO_SHOT else Inr NONE))
              else Inr NONE))"

text \<open>
  The selection rule in the words of the spec, for comparison: sizes are payload bytes
  after alignment, \<open>alignedTo g n\<close> rounding the element count \<open>n\<close> up to a multiple of \<open>g\<close>.
\<close>

definition alignedTo :: "nat \<Rightarrow> nat \<Rightarrow> nat" where
  "alignedTo g n = (n + g - 1) div g * g"

definition spec_selectAllReduceAlgo :: "nat \<Rightarrow> Tensor \<Rightarrow> Topology \<Rightarrow> nat \<Rightarrow> AllReduceAlgo" where
  "spec_selectAllReduceAlgo maxBytes input topology worldSize =
    (if dtype input \<noteq> kBFloat16 \<or> 2 * unat (numel input) > maxBytes then NONE
     else if topology = HYBRID_CUBE_MESH \<and> worldSize = 8 \<and>
             2 * alignedTo 256 (unat (numel input)) \<le> 256 * 1024 then HCM
     else if topology = FULLY_CONNECTED \<and>
             2 * alignedTo 256 (unat (numel input)) \<le> 256 * 1024 then ONE_SHOT
     else if topology = FULLY_CONNECTED \<and>
             2 * alignedTo (256 * worldSize) (unat (numel input)) \<le> 10 * 1024 * 1024 then TWO_SHOT
     else NONE)"

section \<open>Two-shot kernel: shard arithmetic\<close>

text \<open>
  The index computations of \<^verbatim>\<open>twoShotAllReduceKernel\<close>, all in \<^verbatim>\<open>size_t\<close>.  The template
  parameter \<^verbatim>\<open>kWorldSize\<close> is a \<^verbatim>\<open>uint32_t\<close>.  \<^verbatim>\<open>int srcRank = (rank + ii) % kWorldSize\<close>
  narrows the remainder to a 32-bit \<^verbatim>\<open>int\<close>, and \<^verbatim>\<open>srcRanks[ii] = srcRank\<close> widens it again
  with sign extension.
\<close>

definition srcRank :: "uint32_t \<Rightarrow> size_t \<Rightarrow> size_t \<Rightarrow> uint32_t" where
  "srcRank kWorldSize rank ii = ucast ((rank + ii) mod ucast kWorldSize)"

definition srcRanks :: "uint32_t \<Rightarrow> size_t \<Rightarrow> size_t \<Rightarrow> size_t" where
  "srcRanks kWorldSize rank ii = scast (srcRank kWorldSize rank ii)"

definition N_per_rank :: "uint32_t \<Rightarrow> size_t \<Rightarrow> size_t" where
  "N_per_rank kWorldSize N_aligned = N_aligned div ucast kWorldSize"

definition N_start :: "uint32_t \<Rightarrow> size_t \<Rightarrow> size_t \<Rightarrow> size_t" where
  "N_start kWorldSize N_aligned rank = N_per_rank kWorldSize N_aligned * rank"

definition allGatherIndex :: "uint32_t \<Rightarrow> size_t \<Rightarrow> size_t \<Rightarrow> size_t \<Rightarrow> size_t \<Rightarrow> size_t" where
  "allGatherIndex kWorldSize N_aligned rank ii i =
     N_start kWorldSize N_aligned rank + i
       + (srcRanks kWorldSize rank ii - rank) * N_per_rank kWorldSize N_aligned"

section \<open>Hybrid cube mesh recognition\<close>

text \<open>
  Modelled from the spec: \<^verbatim>\<open>NvlMesh\<close> and \<^verbatim>\<open>HybridCubeMesh\<close> are declared in the header.  The
  spec describes the first as the \<^verbatim>\<open>kMaxDevices \<times> kMaxDevices\<close> adjacency matrix of peer-link
  counts and the second as one 4-entry record per rank; the source fills the latter with
  \<^verbatim>\<open>-1\<close> and copies its rows into \<^verbatim>\<open>int hcmInfo[4]\<close>.  Both arrays are lists here; the code
  indexes them below \<^verbatim>\<open>kMaxDevices\<close> (and below 4) only.
\<close>

type_synonym NvlMesh = "nat list list"
type_synonym HybridCubeMesh = "int list list"

text \<open>
  \<^verbatim>\<open>std::unordered_set<size_t>\<close> is a list without repetitions, kept in insertion order.
  The order in which a range-based \<^verbatim>\<open>for\<close> visits it is left open by C++, so it is a
  parameter \<open>iteration\<close> of the model, applied to the contents each time the set is
  traversed.  With libstdc++ and libc++ a new key of an empty bucket is linked at the
  front of the node list, which for the keys \<open>0..7\<close> makes the traversal the reverse of the
  insertion order (\<open>rev\<close>).
\<close>

type_synonym unordered_set = "nat list"

definition us_insert :: "nat \<Rightarrow> unordered_set \<Rightarrow> unordered_set" where
  "us_insert j s = (if j \<in> set s then s else s @ [j])"

definition us_erase :: "nat \<Rightarrow> unordered_set \<Rightarrow> unordered_set" where
  "us_erase j s = removeAll j s"

text \<open>The first loop nest: the neighbour set and the neighbour bit mask of rank \<open>i\<close>.\<close>

definition buildNeighbors :: "NvlMesh \<Rightarrow> nat \<Rightarrow> unordered_set" where
  "buildNeighbors nvlMesh i =
     fold (\<lambda>j s. if nvlMesh ! i ! j > 0 then us_insert j s else s) [0..<kMaxDevices] []"

definition buildNeighborMask :: "NvlMesh \<Rightarrow> nat \<Rightarrow> size_t" where
  "buildNeighborMask nvlMesh i =
     fold (\<lambda>j m. if nvlMesh ! i ! j > 0 then m OR push_bit j 1 else m) [0..<kMaxDevices] 0"

text \<open>\<^verbatim>\<open>hcm[i][k] = v\<close>.\<close>

definition setEntry :: "HybridCubeMesh \<Rightarrow> nat \<Rightarrow> nat \<Rightarrow> int \<Rightarrow> HybridCubeMesh" where
  "setEntry hcm i k v = hcm[i := (hcm ! i)[k := v]]"

text \<open>
  The inner loop of the second loop nest: the vector \<^verbatim>\<open>relayNeighbors\<close> of rank \<open>i\<close>, all
  \<open>j\<close> whose mask is disjoint from the mask of \<open>i\<close>, in ascending order.
\<close>

definition relayNeighbors :: "size_t list \<Rightarrow> nat \<Rightarrow> nat list" where
  "relayNeighbors neighborMasks i =
     filter (\<lambda>j. (neighborMasks ! i) AND (neighborMasks ! j) = 0) [0..<kMaxDevices]"

text \<open>
  The second loop: for each rank the two conditions of a hybrid cube mesh, then the relay
  is erased from the neighbour set and stored in column 3.  \<open>None\<close> is \<^verbatim>\<open>std::nullopt\<close>.
\<close>

fun assignRelays ::
  "size_t list \<Rightarrow> nat list \<Rightarrow> unordered_set list \<times> HybridCubeMesh \<Rightarrow>
   (unordered_set list \<times> HybridCubeMesh) option" where
  "assignRelays neighborMasks [] st = Some st"
| "assignRelays neighborMasks (i # ranks) (neighbors, hcm) =
     (if length (neighbors ! i) \<noteq> 4 then None
      else if length (relayNeighbors neighborMasks i) \<noteq> 1 then None
      else assignRelays neighborMasks ranks
             (neighbors[i := us_erase (relayNeighbors neighborMasks i ! 0) (neighbors ! i)],
              setEntry hcm i 3 (int (relayNeighbors neighborMasks i ! 0))))"

text \<open>
  The innermost loop of the third loop nest: the first \<open>j\<close> of the traversal with
  \<^verbatim>\<open>hcm[j][k] == -1\<close>, if there is one.
\<close>

fun firstUnfilled :: "HybridCubeMesh \<Rightarrow> nat \<Rightarrow> nat list \<Rightarrow> nat option" where
  "firstUnfilled hcm k [] = None"
| "firstUnfilled hcm k (j # js) = (if hcm ! j ! k = -1 then Some j else firstUnfilled hcm k js)"

text \<open>
  One pass of the body for \<open>(i, k)\<close>: the search runs whether or not \<^verbatim>\<open>hcm[i][k]\<close> is already
  filled; then the \<^verbatim>\<open>TORCH_CHECK\<close>, then the erasure of \<^verbatim>\<open>hcm[i][k]\<close> from the neighbours.
\<close>

definition fillEntry ::
  "(nat list \<Rightarrow> nat list) \<Rightarrow> nat \<Rightarrow> nat \<Rightarrow> unordered_set list \<times> HybridCubeMesh \<Rightarrow>
   error + (unordered_set list \<times> HybridCubeMesh)" where
  "fillEntry iteration i k st =
     (case st of (neighbors, hcm) \<Rightarrow>
        let hcm' = (case firstUnfilled hcm k (iteration (neighbors ! i)) of
                      None \<Rightarrow> hcm
                    | Some j \<Rightarrow> setEntry (setEntry hcm i k (int j)) j k (int i))
        in
          if hcm' ! i ! k = -1 then Inl TorchCheckFailed
          else Inr (neighbors[i := us_erase (nat (hcm' ! i ! k)) (neighbors ! i)], hcm'))"

fun fillRow ::
  "(nat list \<Rightarrow> nat list) \<Rightarrow> nat \<Rightarrow> nat list \<Rightarrow> unordered_set list \<times> HybridCubeMesh \<Rightarrow>
   error + (unordered_set list \<times> HybridCubeMesh)" where
  "fillRow iteration i [] st = Inr st"
| "fillRow iteration i (k # ks) st =
     (case fillEntry iteration i k st of
        Inl e \<Rightarrow> Inl e
      | Inr st' \<Rightarrow> fillRow iteration i ks st')"

fun fillRows ::
  "(nat list \<Rightarrow> nat list) \<Rightarrow> nat list \<Rightarrow> unordered_set list \<times> HybridCubeMesh \<Rightarrow>
   error + (unordered_set list \<times> HybridCubeMesh)" where
  "fillRows iteration [] st = Inr st"
| "fillRows iteration (i # ranks) st =
     (case fillRow iteration i [0..<3] st of
        Inl e \<Rightarrow> Inl e
      | Inr st' \<Rightarrow> fillRows iteration ranks st')"

text \<open>
  \<^verbatim>\<open>std::optional<HybridCubeMesh> getHybridCubeMesh(NvlMesh nvlMesh)\<close>: \<open>Inr None\<close> is
  \<^verbatim>\<open>std::nullopt\<close>, \<open>Inr (Some hcm)\<close> the role table, \<open>Inl\<close> the failed \<^verbatim>\<open>TORCH_CHECK\<close>.
\<close>

definition getHybridCubeMesh ::
  "(nat list \<Rightarrow> nat list) \<Rightarrow> NvlMesh \<Rightarrow> error + HybridCubeMesh option" where
  "getHybridCubeMesh iteration nvlMesh =
     (let neighbors = map (buildNeighbors nvlMesh) [0..<kMaxDevices];
          neighborMasks = map (buildNeighborMask nvlMesh) [0..<kMaxDevices];
          hcm = replicate kMaxDevices (replicate 4 (-1))
      in
        case assignRelays neighborMasks [0..<kMaxDevices] (neighbors, hcm) of
          None \<Rightarrow> Inr None
        | Some st \<Rightarrow>
            (case fillRows iteration [0..<kMaxDevices] st of
               Inl e \<Rightarrow> Inl e
             | Inr (neighbors', hcm') \<Rightarrow> Inr (Some hcm')))"

text \<open>The two traversal orders used in the examples below.\<close>

definition insertion_order :: "nat list \<Rightarrow> nat list" where
  "insertion_order s = s"

definition libstdcxx_order :: "nat list \<Rightarrow> nat list" where
  "libstdcxx_order s = rev s"

section \<open>Invariant of the role assignment\<close>

text \<open>
  What holds of the neighbour sets and the table once the second loop has accepted every
  rank, and is kept by every pass of the third loop nest: the shapes, the relay of each
  rank in column 3, neighbour sets that name ranks other than the relay, and neighbour
  columns that are unfilled or name a rank other than the relay.
\<close>

definition relayOf :: "size_t list \<Rightarrow> nat \<Rightarrow> nat" where
  "relayOf neighborMasks i = relayNeighbors neighborMasks i ! 0"

definition roleInv :: "size_t list \<Rightarrow> unordered_set list \<times> HybridCubeMesh \<Rightarrow> bool" where
  "roleInv neighborMasks st =
     (case st of (neighbors, hcm) \<Rightarrow>
        length neighbors = kMaxDevices \<and> length hcm = kMaxDevices \<and>
        (\<forall>i<kMaxDevices.
           length (hcm ! i) = 4 \<and>
           relayNeighbors neighborMasks i = [relayOf neighborMasks i] \<and>
           hcm ! i ! 3 = int (relayOf neighborMasks i) \<and>
           set (neighbors ! i) \<subseteq> {0..<kMaxDevices} - {relayOf neighborMasks i} \<and>
           (\<forall>k<3. hcm ! i ! k = -1 \<or>
                   (\<exists>j<kMaxDevices. hcm ! i ! k = int j \<and> j \<noteq> relayOf neighborMasks i))))"

section \<open>Hybrid cube mesh kernel: signal cells\<close>

text \<open>
  A cell of a signal table: the rank that owns the \<^verbatim>\<open>P2pState\<close>, the block row and the
  column.  \<^verbatim>\<open>hybridCubeMeshAllReduceKernel\<close> uses \<^verbatim>\<open>signals0\<close> twice.  In the barrier, thread
  \<open>t < 3\<close> releases \<^verbatim>\<open>p2pStates[hcmInfo[t]]->signals0[blockIdx.x][rank]\<close> and acquires
  \<^verbatim>\<open>p2pStates[rank]->signals0[blockIdx.x][hcmInfo[t]]\<close>; in the relay handshake thread 0 does
  the same with \<^verbatim>\<open>relayRank = hcmInfo[3]\<close>.
\<close>

type_synonym signal_cell = "nat \<times> nat \<times> nat"

definition hcmBarrierReleases :: "int list \<Rightarrow> nat \<Rightarrow> nat \<Rightarrow> signal_cell list" where
  "hcmBarrierReleases hcmInfo rank block = map (\<lambda>t. (nat (hcmInfo ! t), block, rank)) [0..<3]"

definition hcmBarrierAcquires :: "int list \<Rightarrow> nat \<Rightarrow> nat \<Rightarrow> signal_cell list" where
  "hcmBarrierAcquires hcmInfo rank block = map (\<lambda>t. (rank, block, nat (hcmInfo ! t))) [0..<3]"

definition hcmRelayRelease :: "int list \<Rightarrow> nat \<Rightarrow> nat \<Rightarrow> signal_cell" where
  "hcmRelayRelease hcmInfo rank block = (nat (hcmInfo ! 3), block, rank)"

definition hcmRelayAcquire :: "int list \<Rightarrow> nat \<Rightarrow> nat \<Rightarrow> signal_cell" where
  "hcmRelayAcquire hcmInfo rank block = (rank, block, nat (hcmInfo ! 3))"

section \<open>Recognition and example meshes\<close>

text \<open>
  An adjacency matrix passes the recognition checks when the second loop of
  \<open>getHybridCubeMesh\<close> accepts every rank, that is, the function does not return
  \<^verbatim>\<open>std::nullopt\<close>.
\<close>

definition passesRecognition :: "NvlMesh \<Rightarrow> bool" where
  "passesRecognition nvlMesh \<longleftrightarrow>
     assignRelays (map (buildNeighborMask nvlMesh) [0..<kMaxDevices]) [0..<kMaxDevices]
       (map (buildNeighbors nvlMesh) [0..<kMaxDevices],
        replicate kMaxDevices (replicate 4 (-1))) \<noteq> None"

text \<open>
  The hybrid cube mesh of an eight-GPU server: two fully connected quads \<open>0..3\<close> and
  \<open>4..7\<close>, and a link between \<open>i\<close> and \<open>i + 4\<close>.
\<close>

definition cubeMesh :: NvlMesh where
  "cubeMesh =
    [[0, 1, 1, 1, 1, 0, 0, 0],
     [1, 0, 1, 1, 0, 1, 0, 0],
     [1, 1, 0, 1, 0, 0, 1, 0],
     [1, 1, 1, 0, 0, 0, 0, 1],
     [1, 0, 0, 0, 0, 1, 1, 1],
     [0, 1, 0, 0, 1, 0, 1, 1],
     [0, 0, 1, 0, 1, 1, 0, 1],
     [0, 0, 0, 1, 1, 1, 1, 0]]"

section \<open>Packed bf16 vectors\<close>

text \<open>
  The bf16 values are an arbitrary type \<open>'a\<close>.  \<^verbatim>\<open>__hadd2\<close>, the hardware addition of two
  packed pairs, is not part of the sources: its effect on one lane is the parameter
  \<open>hadd\<close> of the model, and \<open>zero\<close> is the value whose bits are all zero (the \<^verbatim>\<open>memset\<close> of
  \<^verbatim>\<open>sums\<close>).  A \<^verbatim>\<open>bf16x8\<close> is its array \<^verbatim>\<open>vals[4]\<close> of pairs; lanes \<open>2 v\<close> and \<open>2 v + 1\<close> of the
  sixteen bytes are the two halves of \<^verbatim>\<open>vals[v]\<close>.
\<close>

type_synonym 'a bf16x2 = "'a \<times> 'a"
type_synonym 'a bf16x8 = "'a bf16x2 list"

definition bf16hadd2 :: "('a \<Rightarrow> 'a \<Rightarrow> 'a) \<Rightarrow> 'a bf16x2 \<Rightarrow> 'a bf16x2 \<Rightarrow> 'a bf16x2" where
  "bf16hadd2 hadd x y = (hadd (fst x) (fst y), hadd (snd x) (snd y))"

definition add_bf16x8 :: "('a \<Rightarrow> 'a \<Rightarrow> 'a) \<Rightarrow> 'a bf16x8 \<Rightarrow> 'a bf16x8 \<Rightarrow> 'a bf16x8" where
  "add_bf16x8 hadd a b =
     [bf16hadd2 hadd (a ! 0) (b ! 0), bf16hadd2 hadd (a ! 1) (b ! 1),
      bf16hadd2 hadd (a ! 2) (b ! 2), bf16hadd2 hadd (a ! 3) (b ! 3)]"

definition zero_bf16x8 :: "'a \<Rightarrow> 'a bf16x8" where
  "zero_bf16x8 zero = replicate 4 (zero, zero)"

text \<open>
  Memory is a list of bf16 values per allocation; an address \<^verbatim>\<open>&p[i]\<close> is the list and
  the index \<open>i\<close>.  The streaming and the cached variants differ in the cache policy only.
\<close>

definition load128 :: "'a list \<Rightarrow> nat \<Rightarrow> 'a bf16x8" where
  "load128 mem i = map (\<lambda>v. (mem ! (i + 2 * v), mem ! (i + 2 * v + 1))) [0..<4]"

definition store128 :: "'a list \<Rightarrow> nat \<Rightarrow> 'a bf16x8 \<Rightarrow> 'a list" where
  "store128 mem i val =
     fold (\<lambda>v m. m[i + 2 * v := fst (val ! v), i + 2 * v + 1 := snd (val ! v)]) [0..<4] mem"

definition streamLoad128 :: "'a list \<Rightarrow> nat \<Rightarrow> 'a bf16x8" where
  "streamLoad128 mem i = load128 mem i"

definition streamStore128 :: "'a list \<Rightarrow> nat \<Rightarrow> 'a bf16x8 \<Rightarrow> 'a list" where
  "streamStore128 mem i val = store128 mem i val"

text \<open>\<^verbatim>\<open>reinterpret_cast<at::BFloat16*>(&sums)[ii]\<close>.\<close>

definition lane :: "'a bf16x8 \<Rightarrow> nat \<Rightarrow> 'a" where
  "lane val ii = (if even ii then fst (val ! (ii div 2)) else snd (val ! (ii div 2)))"

section \<open>Device memory and the grid\<close>

text \<open>
  The memory the collective touches, per rank: the storage behind the caller's tensor
  (from \<^verbatim>\<open>data_ptr()\<close> on, possibly longer than \<^verbatim>\<open>numel()\<close>), the temporary \<^verbatim>\<open>output\<close> of
  \<^verbatim>\<open>twoShotAllReduce\<close>, and the peer buffer.  \<open>fresh\<close> is what \<^verbatim>\<open>new_empty\<close> would hand out on
  each rank: uninitialised memory, so any contents.
\<close>

record 'a world =
  tensors :: "'a list list"
  outputs :: "'a list list"
  buffers :: "'a list list"
  fresh :: "'a list list"

text \<open>The kernel argument \<^verbatim>\<open>input\<close> points at the tensor or at the temporary output.\<close>

datatype ptr = TensorData | OutputData

definition memOf :: "ptr \<Rightarrow> 'a world \<Rightarrow> 'a list list" where
  "memOf p w = (case p of TensorData \<Rightarrow> tensors w | OutputData \<Rightarrow> outputs w)"

definition readPtr :: "ptr \<Rightarrow> nat \<Rightarrow> 'a world \<Rightarrow> 'a list" where
  "readPtr p rank w = memOf p w ! rank"

definition writePtr :: "ptr \<Rightarrow> nat \<Rightarrow> 'a list \<Rightarrow> 'a world \<Rightarrow> 'a world" where
  "writePtr p rank mem w =
     (case p of TensorData \<Rightarrow> w\<lparr>tensors := (tensors w)[rank := mem]\<rparr>
              | OutputData \<Rightarrow> w\<lparr>outputs := (outputs w)[rank := mem]\<rparr>)"

text \<open>\<^verbatim>\<open>numelPerThread = kBytesPerThread / sizeof(at::BFloat16)\<close>.\<close>

definition numelPerThread :: nat where
  "numelPerThread = unat (kBytesPerThread div 2)"

text \<open>
  Every kernel starts with
  \<^verbatim>\<open>offset = (blockDim.x * blockIdx.x + threadIdx.x) * numelPerThread\<close> and
  \<^verbatim>\<open>stride = blockDim.x * gridDim.x * numelPerThread\<close>, and runs
  \<^verbatim>\<open>for (size_t i = offset; i < bound; i += stride)\<close>.  \<open>gridStride\<close> lists the values of \<open>i\<close>
  one thread goes through.  A launched grid has at least one thread, so \<open>stride\<close> is
  positive; an empty grid is rejected at the launch and no thread runs.  The indices stay
  far below \<open>2 ^ 64\<close>, so they are natural numbers.
\<close>

function gridStride :: "nat \<Rightarrow> nat \<Rightarrow> nat \<Rightarrow> nat list" where
  "gridStride stride bound i =
     (if stride = 0 \<or> bound \<le> i then [] else i # gridStride stride bound (i + stride))"
  by pat_completeness auto
termination
  by (relation "measure (\<lambda>(stride, bound, i). bound - i)") auto

declare gridStride.simps [simp del]

definition threadOffsets :: "nat \<Rightarrow> nat \<Rightarrow> nat list" where
  "threadOffsets gridDim blockDim =
     concat (map (\<lambda>blockIdx. map (\<lambda>threadIdx. (blockDim * blockIdx + threadIdx) * numelPerThread)
                                [0..<blockDim]) [0..<gridDim])"

text \<open>
  The threads of a grid run one after the other, each through its whole loop.  The
  kernels below touch disjoint positions in different iterations, so the order of the
  threads does not show in the result.
\<close>

definition forEachThread ::
  "nat \<Rightarrow> nat \<Rightarrow> nat \<Rightarrow> (nat \<Rightarrow> 's \<Rightarrow> 's) \<Rightarrow> 's \<Rightarrow> 's" where
  "forEachThread gridDim blockDim bound body st =
     fold (\<lambda>offset. fold body (gridStride (blockDim * gridDim * numelPerThread) bound offset))
          (threadOffsets gridDim blockDim) st"

section \<open>The three kernels\<close>

text \<open>
  \<^verbatim>\<open>srcs[ii] = buffers[(rank + ii) % kWorldSize]\<close>, with the conversions of the source
  (see \<open>srcRanks\<close>).
\<close>

definition srcIndex :: "nat \<Rightarrow> nat \<Rightarrow> nat \<Rightarrow> nat" where
  "srcIndex kWorldSize rank ii = unat (srcRanks (of_nat kWorldSize) (of_nat rank) (of_nat ii))"

text \<open>The two unrolled loops shared by the kernels: load one vector per source, add them up.\<close>

definition sumVectors :: "('a \<Rightarrow> 'a \<Rightarrow> 'a) \<Rightarrow> 'a \<Rightarrow> 'a bf16x8 list \<Rightarrow> 'a bf16x8" where
  "sumVectors hadd zero vals = fold (\<lambda>v sums. add_bf16x8 hadd sums v) vals (zero_bf16x8 zero)"

text \<open>
  The tail of the one-shot and of the hybrid-cube-mesh kernel: one 128-bit store when
  \<^verbatim>\<open>kAligned\<close>, otherwise element by element under the guard \<^verbatim>\<open>i + ii < N\<close>.
\<close>

definition storeResult :: "bool \<Rightarrow> nat \<Rightarrow> 'a list \<Rightarrow> nat \<Rightarrow> 'a bf16x8 \<Rightarrow> 'a list" where
  "storeResult kAligned N input i sums =
     (if kAligned then streamStore128 input i sums
      else fold (\<lambda>ii inp. if i + ii < N then inp[i + ii := lane sums ii] else inp)
                [0..<numelPerThread] input)"

text \<open>
  \<^verbatim>\<open>oneShotAllReduceKernel<kWorldSize, kAligned>\<close>, after its barrier: the peer buffers are
  read, the tensor of the rank is written.
\<close>

definition oneShotBody ::
  "('a \<Rightarrow> 'a \<Rightarrow> 'a) \<Rightarrow> 'a \<Rightarrow> nat \<Rightarrow> bool \<Rightarrow> nat \<Rightarrow> nat \<Rightarrow> 'a list list \<Rightarrow>
   nat \<Rightarrow> 'a list \<Rightarrow> 'a list" where
  "oneShotBody hadd zero kWorldSize kAligned N rank bufs i input =
     (let vals = map (\<lambda>ii. streamLoad128 (bufs ! srcIndex kWorldSize rank ii) i) [0..<kWorldSize];
          sums = sumVectors hadd zero vals
      in storeResult kAligned N input i sums)"

definition oneShotAllReduceKernel ::
  "('a \<Rightarrow> 'a \<Rightarrow> 'a) \<Rightarrow> 'a \<Rightarrow> nat \<Rightarrow> bool \<Rightarrow> nat \<Rightarrow> nat \<Rightarrow> nat \<Rightarrow> nat \<Rightarrow> nat \<Rightarrow>
   'a world \<Rightarrow> 'a world" where
  "oneShotAllReduceKernel hadd zero kWorldSize kAligned gridDim blockDim N N_aligned rank w =
     w\<lparr>tensors := (tensors w)[rank :=
          forEachThread gridDim blockDim N_aligned
            (oneShotBody hadd zero kWorldSize kAligned N rank (buffers w)) (tensors w ! rank)]\<rparr>"

text \<open>
  \<^verbatim>\<open>twoShotAllReduceKernel<kWorldSize>\<close>, first loop (reduce-scatter).  The state of the
  loop is the peer buffers and the memory behind \<^verbatim>\<open>input\<close>; the sum is stored to
  \<^verbatim>\<open>srcs[0]\<close> and to \<^verbatim>\<open>input\<close>.
\<close>

definition twoShotPerRank :: "nat \<Rightarrow> nat \<Rightarrow> nat" where
  "twoShotPerRank kWorldSize N_aligned = unat (N_per_rank (of_nat kWorldSize) (of_nat N_aligned))"

definition twoShotStart :: "nat \<Rightarrow> nat \<Rightarrow> nat \<Rightarrow> nat" where
  "twoShotStart kWorldSize N_aligned rank =
     unat (N_start (of_nat kWorldSize) (of_nat N_aligned) (of_nat rank))"

definition reduceScatterBody ::
  "('a \<Rightarrow> 'a \<Rightarrow> 'a) \<Rightarrow> 'a \<Rightarrow> nat \<Rightarrow> nat \<Rightarrow> nat \<Rightarrow>
   nat \<Rightarrow> 'a list list \<times> 'a list \<Rightarrow> 'a list list \<times> 'a list" where
  "reduceScatterBody hadd zero kWorldSize N_aligned rank i st =
     (case st of (bufs, input) \<Rightarrow>
        let start = twoShotStart kWorldSize N_aligned rank;
            vals = map (\<lambda>ii. streamLoad128 (bufs ! srcIndex kWorldSize rank ii) (start + i))
                       [0..<kWorldSize];
            sums = sumVectors hadd zero vals;
            src0 = srcIndex kWorldSize rank 0
        in (bufs[src0 := streamStore128 (bufs ! src0) (start + i) sums],
            streamStore128 input (start + i) sums))"

definition twoShotReduceScatter ::
  "('a \<Rightarrow> 'a \<Rightarrow> 'a) \<Rightarrow> 'a \<Rightarrow> nat \<Rightarrow> nat \<Rightarrow> nat \<Rightarrow> ptr \<Rightarrow> nat \<Rightarrow> nat \<Rightarrow>
   'a world \<Rightarrow> 'a world" where
  "twoShotReduceScatter hadd zero kWorldSize gridDim blockDim input N_aligned rank w =
     (case forEachThread gridDim blockDim (twoShotPerRank kWorldSize N_aligned)
             (reduceScatterBody hadd zero kWorldSize N_aligned rank)
             (buffers w, readPtr input rank w) of
        (bufs, mem) \<Rightarrow> writePtr input rank mem (w\<lparr>buffers := bufs\<rparr>))"

text \<open>
  Second loop (all-gather), after the second barrier: for \<open>ii = 1 .. kWorldSize - 1\<close> the
  vector at \<open>k\<close> is copied from \<^verbatim>\<open>srcs[ii]\<close> to \<^verbatim>\<open>input\<close>.
\<close>

definition allGatherBody ::
  "nat \<Rightarrow> nat \<Rightarrow> nat \<Rightarrow> 'a list list \<Rightarrow> nat \<Rightarrow> 'a list \<Rightarrow> 'a list" where
  "allGatherBody kWorldSize N_aligned rank bufs i input =
     fold (\<lambda>ii inp.
             let k = unat (allGatherIndex (of_nat kWorldSize) (of_nat N_aligned) (of_nat rank)
                             (of_nat ii) (of_nat i))
             in streamStore128 inp k (streamLoad128 (bufs ! srcIndex kWorldSize rank ii) k))
          [1..<kWorldSize] input"

definition twoShotAllGather ::
  "nat \<Rightarrow> nat \<Rightarrow> nat \<Rightarrow> ptr \<Rightarrow> nat \<Rightarrow> nat \<Rightarrow> 'a world \<Rightarrow> 'a world" where
  "twoShotAllGather kWorldSize gridDim blockDim input N_aligned rank w =
     writePtr input rank
       (forEachThread gridDim blockDim (twoShotPerRank kWorldSize N_aligned)
          (allGatherBody kWorldSize N_aligned rank (buffers w)) (readPtr input rank w)) w"

text \<open>
  \<^verbatim>\<open>hybridCubeMeshAllReduceKernel<kAligned>\<close>.  \<^verbatim>\<open>localRelay = buffers[rank] + kMaxIntraNodeSize / 2\<close>
  is pointer arithmetic on \<^verbatim>\<open>at::BFloat16*\<close>: the relay region starts
  \<open>kMaxIntraNodeSize div 2\<close> elements into the peer buffer.  First loop: the partial sum of
  the rank and its three neighbours, stored to the local relay region.
\<close>

definition relayOffset :: "size_t \<Rightarrow> nat" where
  "relayOffset kMaxIntraNodeSize = unat (kMaxIntraNodeSize div 2)"

definition hcmPartialBody ::
  "('a \<Rightarrow> 'a \<Rightarrow> 'a) \<Rightarrow> 'a \<Rightarrow> size_t \<Rightarrow> int list \<Rightarrow> nat \<Rightarrow>
   nat \<Rightarrow> 'a list list \<Rightarrow> 'a list list" where
  "hcmPartialBody hadd zero kMaxIntraNodeSize hcmInfo rank i bufs =
     (let srcs = [bufs ! rank, bufs ! nat (hcmInfo ! 0), bufs ! nat (hcmInfo ! 1),
                  bufs ! nat (hcmInfo ! 2)];
          vals = map (\<lambda>src. streamLoad128 src i) srcs;
          sums = sumVectors hadd zero vals
      in bufs[rank := store128 (bufs ! rank) (relayOffset kMaxIntraNodeSize + i) sums])"

definition hcmPartialSums ::
  "('a \<Rightarrow> 'a \<Rightarrow> 'a) \<Rightarrow> 'a \<Rightarrow> size_t \<Rightarrow> nat \<Rightarrow> nat \<Rightarrow> nat \<Rightarrow> int list \<Rightarrow> nat \<Rightarrow>
   'a world \<Rightarrow> 'a world" where
  "hcmPartialSums hadd zero kMaxIntraNodeSize gridDim blockDim N_aligned hcmInfo rank w =
     w\<lparr>buffers := forEachThread gridDim blockDim N_aligned
                     (hcmPartialBody hadd zero kMaxIntraNodeSize hcmInfo rank) (buffers w)\<rparr>"

text \<open>Second loop, after the relay handshake: local partial plus the relay's partial.\<close>

definition hcmFinalBody ::
  "('a \<Rightarrow> 'a \<Rightarrow> 'a) \<Rightarrow> size_t \<Rightarrow> bool \<Rightarrow> nat \<Rightarrow> int list \<Rightarrow> nat \<Rightarrow> 'a list list \<Rightarrow>
   nat \<Rightarrow> 'a list \<Rightarrow> 'a list" where
  "hcmFinalBody hadd kMaxIntraNodeSize kAligned N hcmInfo rank bufs i input =
     (let relayRank = nat (hcmInfo ! 3);
          localSum = load128 (bufs ! rank) (relayOffset kMaxIntraNodeSize + i);
          remoteSum = streamLoad128 (bufs ! relayRank) (relayOffset kMaxIntraNodeSize + i)
      in storeResult kAligned N input i (add_bf16x8 hadd localSum remoteSum))"

definition hcmFinalSums ::
  "('a \<Rightarrow> 'a \<Rightarrow> 'a) \<Rightarrow> size_t \<Rightarrow> bool \<Rightarrow> nat \<Rightarrow> nat \<Rightarrow> nat \<Rightarrow> nat \<Rightarrow> int list \<Rightarrow> nat \<Rightarrow>
   'a world \<Rightarrow> 'a world" where
  "hcmFinalSums hadd kMaxIntraNodeSize kAligned gridDim blockDim N N_aligned hcmInfo rank w =
     w\<lparr>tensors := (tensors w)[rank :=
          forEachThread gridDim blockDim N_aligned
            (hcmFinalBody hadd kMaxIntraNodeSize kAligned N hcmInfo rank (buffers w))
            (tensors w ! rank)]\<rparr>"

section \<open>Host functions\<close>

text \<open>
  The host functions are asynchronous: they enqueue copies and kernel launches on the
  caller's stream and return.  What a call enqueues is a list of operations; a call that
  raises returns the operations it had enqueued before, and the error.
\<close>

datatype op =
    AllocOutput nat
  | StageInput nat
  | OneShotKernel nat bool dim3 dim3 nat nat
  | TwoShotKernel nat dim3 dim3 ptr nat
  | HcmKernel bool dim3 dim3 nat nat "int list"
  | CopyBack nat

type_synonym enqueued = "op list \<times> error option"

definition checkInput :: "Tensor \<Rightarrow> size_t \<Rightarrow> error option" where
  "checkInput input rank =
     (if dtype input \<noteq> kBFloat16 then Some TorchCheckFailed
      else if \<not> is_non_overlapping_and_dense input then Some TorchCheckFailed
      else if \<not> is_cuda input then Some TorchCheckFailed
      else if get_device input \<noteq> rank then Some TorchCheckFailed
      else None)"

text \<open>
  \<^verbatim>\<open>C10_CUDA_KERNEL_LAUNCH_CHECK\<close> after \<^verbatim>\<open><<<blocks, threads, 0, stream>>>\<close>: the runtime rejects a
  launch with an empty grid or an empty block, and the check raises.
\<close>

definition launchRejected :: "dim3 \<Rightarrow> dim3 \<Rightarrow> bool" where
  "launchRejected blocks threads \<longleftrightarrow> dim_x blocks = 0 \<or> dim_x threads = 0"

text \<open>
  \<^verbatim>\<open>oneShotAllReduce\<close>.  The macro \<^verbatim>\<open>DISPATCH_ALL_WORLD_SIZES\<close> launches the kernel for a world
  size from 2 to 8 and nothing for any other.
\<close>

definition oneShotAllReduce :: "size_t \<Rightarrow> Tensor \<Rightarrow> size_t \<Rightarrow> size_t \<Rightarrow> enqueued" where
  "oneShotAllReduce kMaxIntraNodeSize input rank worldSize =
     (case checkInput input rank of
        Some e \<Rightarrow> ([], Some e)
      | None \<Rightarrow>
          let numelPerWarp = kBytesPerThread div element_size input * kWarpSize in
          (case alignUp (ucast (numel input)) (ucast numelPerWarp) of
             Inl e \<Rightarrow> ([], Some e)
           | Inr N_aligned \<Rightarrow>
               if \<not> N_aligned \<le> kMaxIntraNodeSize div element_size input
               then ([], Some TorchCheckFailed)
               else
                 (case getLaunchConfig N_aligned (element_size input) of
                    Inl e \<Rightarrow> ([], Some e)
                  | Inr (blocks, threads) \<Rightarrow>
                      let staged = [StageInput (unat (numel input))] in
                      if 2 \<le> worldSize \<and> worldSize \<le> 8 then
                        (if launchRejected blocks threads then (staged, Some LaunchFailure)
                         else (staged @ [OneShotKernel (unat worldSize) (N_aligned = numel input)
                                           blocks threads (unat (numel input)) (unat N_aligned)],
                               None))
                      else (staged, None))))"

text \<open>
  \<^verbatim>\<open>twoShotAllReduce\<close>.  \<^verbatim>\<open>output\<close> is the input itself when no padding is needed and a
  fresh tensor of \<^verbatim>\<open>N_aligned\<close> elements otherwise; in the second case the prefix is copied
  back after the kernel.
\<close>

definition twoShotAllReduce :: "size_t \<Rightarrow> Tensor \<Rightarrow> size_t \<Rightarrow> size_t \<Rightarrow> enqueued" where
  "twoShotAllReduce kMaxIntraNodeSize input rank worldSize =
     (case checkInput input rank of
        Some e \<Rightarrow> ([], Some e)
      | None \<Rightarrow>
          let numelPerWarp = kBytesPerThread div element_size input * kWarpSize in
          (case alignUp (ucast (numel input)) (ucast (worldSize * numelPerWarp)) of
             Inl e \<Rightarrow> ([], Some e)
           | Inr N_aligned \<Rightarrow>
               if worldSize = 0 then ([], Some DivideByZero)
               else
                 let N_per_rank = N_aligned div worldSize in
                 if \<not> N_aligned \<le> kMaxIntraNodeSize div element_size input
                 then ([], Some TorchCheckFailed)
                 else
                   (case getLaunchConfig N_per_rank (element_size input) of
                      Inl e \<Rightarrow> ([], Some e)
                    | Inr (blocks, threads) \<Rightarrow>
                        let inPlace = (N_aligned = numel input);
                            output = (if inPlace then TensorData else OutputData);
                            staged = (if inPlace then [] else [AllocOutput (unat N_aligned)])
                                     @ [StageInput (unat (numel input))];
                            copyBack = (if inPlace then [] else [CopyBack (unat (numel input))])
                        in
                          if 2 \<le> worldSize \<and> worldSize \<le> 8 then
                            (if launchRejected blocks threads then (staged, Some LaunchFailure)
                             else (staged @ [TwoShotKernel (unat worldSize) blocks threads output
                                               (unat N_aligned)] @ copyBack,
                                   None))
                          else (staged @ copyBack, None))))"

text \<open>\<^verbatim>\<open>hybridCubeMeshAllReduce\<close>; \<^verbatim>\<open>hcmInfo\<close> is the row of the role table on the device.\<close>

definition hybridCubeMeshAllReduce ::
  "size_t \<Rightarrow> Tensor \<Rightarrow> int list \<Rightarrow> size_t \<Rightarrow> size_t \<Rightarrow> enqueued" where
  "hybridCubeMeshAllReduce kMaxIntraNodeSize input hcmInfo rank worldSize =
     (case checkInput input rank of
        Some e \<Rightarrow> ([], Some e)
      | None \<Rightarrow>
          let numelPerWarp = kBytesPerThread div element_size input * kWarpSize in
          (case alignUp (ucast (numel input)) (ucast numelPerWarp) of
             Inl e \<Rightarrow> ([], Some e)
           | Inr N_aligned \<Rightarrow>
               if \<not> N_aligned \<le> kMaxIntraNodeSize div element_size input
               then ([], Some TorchCheckFailed)
               else
                 (case getLaunchConfig N_aligned (element_size input) of
                    Inl e \<Rightarrow> ([], Some e)
                  | Inr (blocks, threads) \<Rightarrow>
                      let staged = [StageInput (unat (numel input))] in
                      if launchRejected blocks threads then (staged, Some LaunchFailure)
                      else (staged @ [HcmKernel (N_aligned = numel input) blocks threads
                                        (unat (numel input)) (unat N_aligned) hcmInfo],
                            None))))"

text \<open>\<^verbatim>\<open>allReduce\<close>: the \<^verbatim>\<open>switch\<close> over the algorithm; \<^verbatim>\<open>default\<close> raises \<^verbatim>\<open>ValueError\<close>.\<close>

definition allReduce ::
  "size_t \<Rightarrow> Tensor \<Rightarrow> int list \<Rightarrow> size_t \<Rightarrow> size_t \<Rightarrow> AllReduceAlgo \<Rightarrow> enqueued" where
  "allReduce kMaxIntraNodeSize input topoInfo rank worldSize algo =
     (case algo of
        ONE_SHOT \<Rightarrow> oneShotAllReduce kMaxIntraNodeSize input rank worldSize
      | TWO_SHOT \<Rightarrow> twoShotAllReduce kMaxIntraNodeSize input rank worldSize
      | HCM \<Rightarrow> hybridCubeMeshAllReduce kMaxIntraNodeSize input topoInfo rank worldSize
      | NONE \<Rightarrow> ([], Some ValueError))"

section \<open>Running the enqueued operations\<close>

text \<open>
  The effect of one operation of one rank, as the list of its phases; the phases of a
  kernel are the stretches between its cross-device barriers.  \<^verbatim>\<open>cudaMemcpyAsync\<close> of \<open>n\<close>
  elements replaces the first \<open>n\<close> elements of the destination.
\<close>

definition memcpy :: "nat \<Rightarrow> 'a list \<Rightarrow> 'a list \<Rightarrow> 'a list" where
  "memcpy n src dst = take n src @ drop n dst"

text \<open>\<^verbatim>\<open>input.new_empty(N_aligned)\<close>: the temporary output is fresh memory of \<open>n\<close> elements.\<close>

definition allocOutput :: "nat \<Rightarrow> nat \<Rightarrow> 'a world \<Rightarrow> 'a world" where
  "allocOutput n rank w = w\<lparr>outputs := (outputs w)[rank := take n (fresh w ! rank)]\<rparr>"

text \<open>\<^verbatim>\<open>cudaMemcpyAsync(buffers[rank], input.data_ptr(), input.numel() * element_size, \<dots>)\<close>.\<close>

definition stageInput :: "nat \<Rightarrow> nat \<Rightarrow> 'a world \<Rightarrow> 'a world" where
  "stageInput n rank w =
     w\<lparr>buffers := (buffers w)[rank := memcpy n (tensors w ! rank) (buffers w ! rank)]\<rparr>"

text \<open>\<^verbatim>\<open>cudaMemcpyAsync(input.data_ptr(), output.data_ptr(), input.numel() * element_size, \<dots>)\<close>.\<close>

definition copyBack :: "nat \<Rightarrow> nat \<Rightarrow> 'a world \<Rightarrow> 'a world" where
  "copyBack n rank w =
     w\<lparr>tensors := (tensors w)[rank := memcpy n (outputs w ! rank) (tensors w ! rank)]\<rparr>"

fun phasesOf ::
  "('a \<Rightarrow> 'a \<Rightarrow> 'a) \<Rightarrow> 'a \<Rightarrow> size_t \<Rightarrow> nat \<Rightarrow> op \<Rightarrow> ('a world \<Rightarrow> 'a world) list" where
  "phasesOf hadd zero kMax rank (AllocOutput n) = [allocOutput n rank]"
| "phasesOf hadd zero kMax rank (StageInput n) = [stageInput n rank]"
| "phasesOf hadd zero kMax rank (OneShotKernel kWorldSize kAligned blocks threads N N_aligned) =
     [oneShotAllReduceKernel hadd zero kWorldSize kAligned
        (unat (dim_x blocks)) (unat (dim_x threads)) N N_aligned rank]"
| "phasesOf hadd zero kMax rank (TwoShotKernel kWorldSize blocks threads output N_aligned) =
     [twoShotReduceScatter hadd zero kWorldSize
        (unat (dim_x blocks)) (unat (dim_x threads)) output N_aligned rank,
      twoShotAllGather kWorldSize
        (unat (dim_x blocks)) (unat (dim_x threads)) output N_aligned rank]"
| "phasesOf hadd zero kMax rank (HcmKernel kAligned blocks threads N N_aligned hcmInfo) =
     [hcmPartialSums hadd zero kMax
        (unat (dim_x blocks)) (unat (dim_x threads)) N_aligned hcmInfo rank,
      hcmFinalSums hadd kMax kAligned
        (unat (dim_x blocks)) (unat (dim_x threads)) N N_aligned hcmInfo rank]"
| "phasesOf hadd zero kMax rank (CopyBack n) = [copyBack n rank]"

text \<open>
  The barriers order the ranks: every kernel starts with a barrier, which no rank passes
  before the peers it is about to read from (all of them, or its three direct neighbours
  in the hybrid cube mesh) have entered the kernel and so finished their staging copy,
  and the phases of a kernel are separated by barriers or, in the hybrid cube mesh, by
  the handshake with the relay.  The collective therefore runs in
  lock step: phase \<open>k\<close> of every rank, rank by rank, before phase \<open>k + 1\<close> of any.
\<close>

definition phaseColumn :: "nat \<Rightarrow> 'p list list \<Rightarrow> 'p list" where
  "phaseColumn k pss = concat (map (\<lambda>ps. if k < length ps then [ps ! k] else []) pss)"

definition lockStep :: "'p list list \<Rightarrow> 'p list" where
  "lockStep pss = concat (map (\<lambda>k. phaseColumn k pss) [0..<fold max (map length pss) 0])"

text \<open>
  All ranks of a world of \<open>worldSize\<close> devices call \<^verbatim>\<open>allReduce\<close> with their tensor and their
  row of the role table.  If a call raises, the collective does not complete (the first
  error is reported); otherwise the enqueued operations run in lock step.
\<close>

definition allReduceCollective ::
  "('a \<Rightarrow> 'a \<Rightarrow> 'a) \<Rightarrow> 'a \<Rightarrow> size_t \<Rightarrow> Tensor list \<Rightarrow> int list list \<Rightarrow> nat \<Rightarrow> AllReduceAlgo \<Rightarrow>
   'a world \<Rightarrow> error + 'a world" where
  "allReduceCollective hadd zero kMax inputs topoInfos worldSize algo w =
     (let calls = map (\<lambda>rank. allReduce kMax (inputs ! rank) (topoInfos ! rank)
                                (of_nat rank) (of_nat worldSize) algo) [0..<worldSize]
      in case List.find (\<lambda>c. snd c \<noteq> None) calls of
           Some c \<Rightarrow> Inl (the (snd c))
         | None \<Rightarrow>
             Inr (fold (\<lambda>phase. phase)
                    (lockStep (map (\<lambda>rank. concat (map (phasesOf hadd zero kMax rank)
                                                       (fst (calls ! rank))))
                                   [0..<worldSize])) w))"

section \<open>Reference values\<close>

text \<open>
  The positions the threads of a grid go through, thread after thread (what
  \<open>forEachThread\<close> folds over).
\<close>

definition gridPositions :: "nat \<Rightarrow> nat \<Rightarrow> nat \<Rightarrow> nat list" where
  "gridPositions gridDim blockDim bound =
     concat (map (gridStride (blockDim * gridDim * numelPerThread) bound)
                 (threadOffsets gridDim blockDim))"

text \<open>
  The reference of the claims, in the words of the spec: the sum at position \<open>p\<close> as rank
  \<open>rank\<close> computes it, starting from zero and adding the value of peer
  \<open>(rank + k) mod W\<close> for \<open>k = 0, \<dots>, W - 1\<close>, one rounding addition after the other.
\<close>

definition rotatedSum ::
  "('a \<Rightarrow> 'a \<Rightarrow> 'a) \<Rightarrow> 'a \<Rightarrow> nat \<Rightarrow> nat \<Rightarrow> 'a list list \<Rightarrow> nat \<Rightarrow> 'a" where
  "rotatedSum hadd zero W rank xs p =
     foldl hadd zero (map (\<lambda>k. xs ! ((rank + k) mod W) ! p) [0..<W])"




section \<open>Example world\<close>

text \<open>
  Two ranks with eight bf16 elements each, in storage of ten elements; peer buffers of
  \<open>kMaxIntraNodeSize = 1024\<close> bytes.
\<close>

definition twoRankInputs :: "Tensor list" where
  "twoRankInputs =
     [\<lparr>dtype = kBFloat16, numel = 8, is_non_overlapping_and_dense = True, is_cuda = True,
       get_device = 0\<rparr>,
      \<lparr>dtype = kBFloat16, numel = 8, is_non_overlapping_and_dense = True, is_cuda = True,
       get_device = 1\<rparr>]"

definition twoRankWorld :: "int world" where
  "twoRankWorld =
     \<lparr>tensors = [[1, 2, 3, 4, 5, 6, 7, 8, 9, 9], [10, 20, 30, 40, 50, 60, 70, 80, 90, 90]],
      outputs = [[], []],
      buffers = [replicate 512 0, replicate 512 0],
      fresh = [[], []]\<rparr>"




definition scatterWorld :: "int world" where
  "scatterWorld =
     \<lparr>tensors = [replicate 512 0, replicate 512 0],
      outputs = [[], []],
      buffers = [map (\<lambda>p. 1000 + int p) [0..<512], map (\<lambda>p. 2000 + int p) [0..<512]],
      fresh = [[], []]\<rparr>"

section \<open>Properties: host-side arithmetic\<close>

text \<open>Conversions between the two word sizes, read as natural numbers.\<close>

lemma unat_ucast_up: "unat (ucast (w :: uint32_t) :: size_t) = unat w"
proof -
  have "unat w < 2 ^ 32" using unsigned_less [of w] by simp
  then have "unat w < 2 ^ 64" by (rule less_trans) simp
  then show ?thesis by (simp add: unsigned_ucast_eq take_bit_nat_eq_self)
qed

lemma unat_ucast_down: "unat (ucast (w :: size_t) :: uint32_t) = unat w mod 2 ^ 32"
  by (simp add: unsigned_ucast_eq take_bit_eq_mod)

lemma unat_divUp:
  assumes "b \<noteq> 0" and "unat a + unat b - 1 < 2 ^ 32"
  shows "\<exists>q. divUp a b = Inr q \<and> unat q = (unat a + unat b - 1) div unat b"
proof -
  have b1: "unat (b - 1) = unat b - 1" using assms(1) by (rule unat_minus_one)
  have bpos: "0 < unat b" using assms(1) by (simp add: unat_gt_0)
  have "unat a + unat (b - 1) < 2 ^ LENGTH(32)"
    using assms(2) b1 bpos by simp
  then have "unat (a + (b - 1)) = unat a + unat (b - 1)"
    by (simp only: unat_add_lem)
  then have "unat (a + b - 1) = unat a + unat b - 1"
    using b1 bpos by (simp add: algebra_simps)
  then show ?thesis
    using assms(1) by (simp add: divUp_def unat_div unat_ucast_up)
qed

lemma unat_alignUp:
  assumes "b \<noteq> 0" and "unat a + unat b - 1 < 2 ^ 32"
  shows "\<exists>q. alignUp a b = Inr q \<and> unat q = (unat a + unat b - 1) div unat b * unat b"
proof -
  obtain d where d: "divUp a b = Inr d" "unat d = (unat a + unat b - 1) div unat b"
    using unat_divUp [OF assms] by blast
  have ub: "unat (ucast b :: size_t) = unat b"
    by (rule unat_ucast_up)
  have "unat d * unat (ucast b :: size_t) < 2 ^ LENGTH(64)"
  proof -
    have "(unat a + unat b - 1) div unat b * unat b \<le> unat a + unat b - 1"
      by (rule div_times_less_eq_dividend)
    also have "\<dots> < 2 ^ 32" by (rule assms(2))
    finally have "unat d * unat (ucast b :: size_t) < 2 ^ 32" by (simp only: d(2) ub)
    then show ?thesis by (rule less_trans) simp
  qed
  then have "unat (d * ucast b) = unat d * unat (ucast b :: size_t)"
    by (simp only: unat_mult_lem)
  then show ?thesis using d ub by (simp add: alignUp_def)
qed

lemma getLaunchConfig_small:
  assumes "elemSize \<noteq> 0" "kBytesPerThread div elemSize \<noteq> 0"
    and "N_aligned mod (kBytesPerThread div elemSize) = 0"
    and "N_aligned mod (kBytesPerThread div elemSize * kWarpSize) = 0"
    and "N_aligned < kBytesPerThread div elemSize * kThreadsPerBlock"
  shows "getLaunchConfig N_aligned elemSize =
    Inr (dim3_init\<lparr>dim_x := 1\<rparr>,
         dim3_init\<lparr>dim_x := ucast (N_aligned div (kBytesPerThread div elemSize * kWarpSize) * kWarpSize)\<rparr>)"
  using assms by (simp add: getLaunchConfig_def Let_def)

lemma getLaunchConfig_large:
  assumes "elemSize \<noteq> 0" "kBytesPerThread div elemSize \<noteq> 0"
    and "N_aligned mod (kBytesPerThread div elemSize) = 0"
    and "N_aligned mod (kBytesPerThread div elemSize * kWarpSize) = 0"
    and "\<not> N_aligned < kBytesPerThread div elemSize * kThreadsPerBlock"
    and "divUp (ucast (N_aligned div (kBytesPerThread div elemSize))) (ucast kThreadsPerBlock) = Inr bw"
    and "divUp (ucast (N_aligned div (kBytesPerThread div elemSize * kWarpSize)))
           (ucast (min bw kMaxAllReduceBlocks)) = Inr wpb"
  shows "getLaunchConfig N_aligned elemSize =
    Inr (dim3_init\<lparr>dim_x := ucast (min bw kMaxAllReduceBlocks)\<rparr>,
         dim3_init\<lparr>dim_x := ucast (min kThreadsPerBlock (wpb * kWarpSize))\<rparr>)"
  using assms by (simp add: getLaunchConfig_def Let_def)

lemma unat_min_word: "unat (min (a :: 'a::len word) b) = min (unat a) (unat b)"
  by (simp add: min_def word_le_nat_alt)

lemma dim3_init_fields:
  "dim_y (dim3_init\<lparr>dim_x := v\<rparr>) = 1" "dim_z (dim3_init\<lparr>dim_x := v\<rparr>) = 1"
  "dim_x (dim3_init\<lparr>dim_x := v\<rparr>) = v"
  by (simp_all add: dim3_init_def)

lemma unat_mult_small:
  fixes a b :: size_t
  assumes "unat a * unat b < 2 ^ 64"
  shows "unat (a * b) = unat a * unat b"
proof -
  have "unat a * unat b < 2 ^ LENGTH(64)" using assms by simp
  then show ?thesis by (simp only: unat_mult_lem)
qed

lemma unat_ucast_down_small:
  fixes w :: size_t
  assumes "unat w < 2 ^ 32"
  shows "unat (ucast w :: uint32_t) = unat w"
  using assms by (simp add: unat_ucast_down)

lemma getLaunchConfig_nat:
  fixes N_aligned elemSize :: size_t
  defines "perThread \<equiv> 16 div unat elemSize"
  defines "perWarp \<equiv> perThread * 32"
  defines "threadsRequired \<equiv> unat N_aligned div perThread"
  defines "warpsRequired \<equiv> unat N_aligned div perWarp"
  assumes es: "0 < unat elemSize" "unat elemSize \<le> 16"
    and pos: "0 < unat N_aligned"
    and mult: "unat N_aligned mod perWarp = 0"
    and range: "threadsRequired + 1023 < 2 ^ 32"
  shows "\<exists>blocks threads.
      getLaunchConfig N_aligned elemSize = Inr (blocks, threads) \<and>
      dim_y blocks = 1 \<and> dim_z blocks = 1 \<and> dim_y threads = 1 \<and> dim_z threads = 1 \<and>
      (if perThread * 1024 \<le> unat N_aligned
       then unat (dim_x blocks) = min ((threadsRequired + 1023) div 1024) 24 \<and>
            unat (dim_x threads) =
              min 1024 ((warpsRequired + unat (dim_x blocks) - 1) div unat (dim_x blocks) * 32)
       else unat (dim_x blocks) = 1 \<and> unat (dim_x threads) = warpsRequired * 32)"
proof -
  let ?n = "unat N_aligned"
  let ?npt = "kBytesPerThread div elemSize"
  let ?npw = "?npt * kWarpSize"
  have kws: "unat kWarpSize = 32" by (simp add: kWarpSize_def)
  have ktb: "unat kThreadsPerBlock = 1024" by (simp add: kThreadsPerBlock_def)
  have kmb: "unat kMaxAllReduceBlocks = 24" by (simp add: kMaxAllReduceBlocks_def)
  have e0: "elemSize \<noteq> 0" using es(1) by (simp add: unat_gt_0)
  have npt: "unat ?npt = perThread"
    by (simp add: unat_div kBytesPerThread_def perThread_def)
  have npt_pos: "0 < perThread"
    using es by (simp add: perThread_def div_greater_zero_iff)
  have npt_le: "perThread \<le> 16"
    by (simp add: perThread_def)
  have npt0: "?npt \<noteq> 0" using npt npt_pos by (metis less_numeral_extra(3) unat_0)
  have npw: "unat ?npw = perWarp"
  proof -
    have "unat ?npt * unat kWarpSize < 2 ^ 64" using npt_le by (simp only: npt kws) simp
    then have "unat ?npw = unat ?npt * unat kWarpSize" by (rule unat_mult_small)
    then show ?thesis by (simp only: npt perWarp_def kws)
  qed
  have mod_npw: "N_aligned mod ?npw = 0"
    using mult npw by (metis unat_mod unat_eq_zero)
  have mod_npt: "N_aligned mod ?npt = 0"
  proof -
    have "perWarp dvd ?n" using mult by (simp add: mod_eq_0_iff_dvd)
    then have "perThread dvd ?n" unfolding perWarp_def by (rule dvd_mult_left)
    then have "?n mod perThread = 0" by (simp add: mod_eq_0_iff_dvd)
    then show ?thesis using npt by (metis unat_mod unat_eq_zero)
  qed
  have blk: "unat (?npt * kThreadsPerBlock) = perThread * 1024"
  proof -
    have "unat ?npt * unat kThreadsPerBlock < 2 ^ 64"
      using npt_le by (simp only: npt ktb) simp
    then have "unat (?npt * kThreadsPerBlock) = unat ?npt * unat kThreadsPerBlock"
      by (rule unat_mult_small)
    then show ?thesis by (simp only: npt ktb)
  qed
  have wr: "unat (N_aligned div ?npw) = warpsRequired"
    by (simp only: unat_div [of N_aligned "?npw"] npw warpsRequired_def)
  have tr: "unat (N_aligned div ?npt) = threadsRequired"
    by (simp only: unat_div [of N_aligned "?npt"] npt threadsRequired_def)
  have wr_le_tr: "warpsRequired \<le> threadsRequired"
    unfolding warpsRequired_def threadsRequired_def perWarp_def
    using npt_pos by (simp add: div_mult2_eq)
  show ?thesis
  proof (cases "perThread * 1024 \<le> ?n")
    case False
    then have small: "N_aligned < ?npt * kThreadsPerBlock"
      by (simp add: word_less_nat_alt blk)
    have a: "warpsRequired * perWarp \<le> ?n"
      by (simp add: warpsRequired_def)
    have wr32: "warpsRequired < 32"
    proof (rule ccontr)
      assume "\<not> warpsRequired < 32"
      then have "32 \<le> warpsRequired" by simp
      then have "32 * perWarp \<le> warpsRequired * perWarp" by (rule mult_le_mono1)
      also note a
      finally have "32 * (perThread * 32) \<le> ?n" by (simp only: perWarp_def)
      moreover have "32 * (perThread * 32) = perThread * 1024" by simp
      ultimately show False using False by linarith
    qed
    have "unat (N_aligned div ?npw) * unat kWarpSize < 2 ^ 64"
      using wr32 by (simp only: wr kws) simp
    then have "unat (N_aligned div ?npw * kWarpSize) = unat (N_aligned div ?npw) * unat kWarpSize"
      by (rule unat_mult_small)
    then have t: "unat (N_aligned div ?npw * kWarpSize) = warpsRequired * 32"
      by (simp only: wr kws)
    have tx: "unat (ucast (N_aligned div ?npw * kWarpSize) :: uint32_t) = warpsRequired * 32"
      using wr32 by (simp only: unat_ucast_down t) simp
    have cfg: "getLaunchConfig N_aligned elemSize =
        Inr (dim3_init\<lparr>dim_x := 1\<rparr>,
             dim3_init\<lparr>dim_x := ucast (N_aligned div ?npw * kWarpSize)\<rparr>)"
      by (rule getLaunchConfig_small [OF e0 npt0 mod_npt mod_npw small])
    show ?thesis
      unfolding cfg using False tx by (simp add: dim3_init_def)
  next
    case True
    then have big: "\<not> N_aligned < ?npt * kThreadsPerBlock"
      by (simp add: word_less_nat_alt blk)
    have tr_ge: "1024 \<le> threadsRequired"
    proof -
      have "1024 = perThread * 1024 div perThread" using npt_pos by simp
      also have "\<dots> \<le> ?n div perThread" using True by (rule div_le_mono)
      finally show ?thesis by (simp add: threadsRequired_def)
    qed
    have tr32: "unat (ucast (N_aligned div ?npt) :: uint32_t) = threadsRequired"
      using range by (simp only: unat_ucast_down tr) simp
    have wr32: "unat (ucast (N_aligned div ?npw) :: uint32_t) = warpsRequired"
      using range wr_le_tr by (simp only: unat_ucast_down wr) simp
    have k32: "unat (ucast kThreadsPerBlock :: uint32_t) = 1024"
      by (simp add: kThreadsPerBlock_def)
    have k0: "(ucast kThreadsPerBlock :: uint32_t) \<noteq> 0"
      by (simp add: kThreadsPerBlock_def)
    obtain bw where bw: "divUp (ucast (N_aligned div ?npt)) (ucast kThreadsPerBlock) = Inr bw"
        "unat bw = (threadsRequired + 1023) div 1024"
      using unat_divUp [OF k0, of "ucast (N_aligned div ?npt)"] range
      unfolding tr32 k32 by auto
    define bx where "bx = (ucast (min bw kMaxAllReduceBlocks) :: uint32_t)"
    have bx: "unat bx = min ((threadsRequired + 1023) div 1024) 24"
    proof -
      have "unat (min bw kMaxAllReduceBlocks) = min ((threadsRequired + 1023) div 1024) 24"
        by (simp only: unat_min_word bw(2) kmb)
      then show ?thesis unfolding bx_def by (simp only: unat_ucast_down) simp
    qed
    have bx_pos: "1 \<le> unat bx" using bx tr_ge by simp
    have bx_le: "unat bx \<le> 24" using bx by simp
    have bx0: "bx \<noteq> 0" using bx_pos by (metis not_one_le_zero unat_0)
    have "unat (ucast (N_aligned div ?npw) :: uint32_t) + unat bx - 1 < 2 ^ 32"
      using wr_le_tr range bx_le unfolding wr32 by simp
    from unat_divUp [OF bx0 this]
    obtain wpb where wpb: "divUp (ucast (N_aligned div ?npw)) bx = Inr wpb"
        "unat wpb = (warpsRequired + unat bx - 1) div unat bx"
      unfolding wr32 by auto
    have wpb_le: "unat wpb < 2 ^ 32"
    proof -
      have "unat wpb \<le> warpsRequired + unat bx - 1" by (simp add: wpb(2))
      then show ?thesis using wr_le_tr range bx_le by simp
    qed
    have "unat wpb * unat kWarpSize < 2 ^ 64" using wpb_le by (simp only: kws) simp
    then have "unat (wpb * kWarpSize) = unat wpb * unat kWarpSize" by (rule unat_mult_small)
    then have m: "unat (min kThreadsPerBlock (wpb * kWarpSize)) = min 1024 (unat wpb * 32)"
      by (simp only: unat_min_word ktb kws)
    have tx: "unat (ucast (min kThreadsPerBlock (wpb * kWarpSize)) :: uint32_t)
        = min 1024 ((warpsRequired + unat bx - 1) div unat bx * 32)"
      by (simp only: unat_ucast_down m wpb(2)) simp
    have cfg: "getLaunchConfig N_aligned elemSize =
        Inr (dim3_init\<lparr>dim_x := bx\<rparr>,
             dim3_init\<lparr>dim_x := ucast (min kThreadsPerBlock (wpb * kWarpSize))\<rparr>)"
      unfolding bx_def
      by (rule getLaunchConfig_large [OF e0 npt0 mod_npt mod_npw big bw(1) wpb(1) [unfolded bx_def]])
    show ?thesis
      unfolding cfg using True tx bx by (simp add: dim3_init_def)
  qed
qed

text \<open>
  Claim C7.  For every \<open>N_aligned\<close> that is a positive multiple of
  \<open>warpSize \<times> elementsPerThread\<close>, \<open>getLaunchConfig\<close> returns
  \<open>blocks.x = min(ceil(threadsRequired / 1024), 24)\<close> and
  \<open>threads.x = min(1024, ceil(warpsRequired / blocks.x) \<times> warpSize)\<close> when \<open>N_aligned\<close>
  fills at least one block of 1024 threads, and otherwise \<open>blocks.x = 1\<close> with \<open>threads.x\<close>
  the number of warps needed times \<open>warpSize\<close>.  The element size is any size that
  leaves at least one element per 16-byte thread slot; \<open>N_aligned\<close> ranges over the sizes
  whose thread count the 32-bit parameters of \<open>divUp\<close> hold exactly, which covers every
  \<open>N_aligned\<close> the three callers let through their check against
  \<open>kMaxIntraNodeSize / element_size\<close>.
\<close>

theorem getLaunchConfig_geometry:
  fixes N_aligned elemSize :: size_t
  defines "perThread \<equiv> 16 div unat elemSize"
  defines "perWarp \<equiv> perThread * 32"
  defines "threadsRequired \<equiv> unat N_aligned div perThread"
  defines "warpsRequired \<equiv> unat N_aligned div perWarp"
  assumes es: "0 < unat elemSize" "unat elemSize \<le> 16"
    and pos: "0 < unat N_aligned"
    and mult: "unat N_aligned mod perWarp = 0"
    and range: "threadsRequired + 1023 < 2 ^ 32"
  shows "\<exists>blocks threads.
      getLaunchConfig N_aligned elemSize = Inr (blocks, threads) \<and>
      dim_y blocks = 1 \<and> dim_z blocks = 1 \<and> dim_y threads = 1 \<and> dim_z threads = 1 \<and>
      (if perThread * 1024 \<le> unat N_aligned
       then unat (dim_x blocks) = min ((threadsRequired + 1023) div 1024) 24 \<and>
            unat (dim_x threads) =
              min 1024 ((warpsRequired + unat (dim_x blocks) - 1) div unat (dim_x blocks) * 32)
       else unat (dim_x blocks) = 1 \<and> unat (dim_x threads) = warpsRequired * 32)"
  unfolding perThread_def perWarp_def threadsRequired_def warpsRequired_def
  by (rule getLaunchConfig_nat [OF es pos
        mult [unfolded perWarp_def perThread_def]
        range [unfolded threadsRequired_def perThread_def]])

theorem getLaunchConfig_geometry_witness:
  "\<exists>blocks threads.
      getLaunchConfig 196864 2 = Inr (blocks, threads) \<and>
      unat (dim_x blocks) = 24 \<and> unat (dim_x threads) = 1024 \<and>
      dim_y blocks = 1 \<and> dim_z blocks = 1 \<and> dim_y threads = 1 \<and> dim_z threads = 1"
  using getLaunchConfig_geometry [where N_aligned = 196864 and elemSize = 2]
  by auto

section \<open>Properties: two-shot shard arithmetic\<close>

lemma scast_small:
  fixes v :: uint32_t
  assumes "unat v < 2 ^ 31"
  shows "unat (scast v :: size_t) = unat v"
proof -
  have "\<not> bit (unat v) 31" using assms by (simp add: bit_iff_odd)
  then have "\<not> bit v 31" by (simp add: bit_unsigned_iff)
  then have "(scast v :: size_t) = ucast v"
    by (intro bit_eqI) (auto simp add: bit_word_scast_iff bit_word_ucast_iff dest: bit_imp_le_length)
  then show ?thesis using unat_ucast_up by simp
qed

lemma unat_srcRanks:
  assumes W: "0 < unat kWorldSize" "unat kWorldSize \<le> 8"
    and r: "unat rank < unat kWorldSize" and i: "unat ii < unat kWorldSize"
  shows "unat (srcRanks kWorldSize rank ii) = (unat rank + unat ii) mod unat kWorldSize"
proof -
  have "unat rank + unat ii < 2 ^ LENGTH(64)" using W r i by simp
  then have s: "unat (rank + ii) = unat rank + unat ii" by (simp only: unat_add_lem)
  have m: "unat ((rank + ii) mod ucast kWorldSize) = (unat rank + unat ii) mod unat kWorldSize"
    by (simp only: unat_mod s unat_ucast_up)
  have lt: "(unat rank + unat ii) mod unat kWorldSize < 8"
    using W by (meson less_le_trans mod_less_divisor)
  have "unat (srcRank kWorldSize rank ii) = (unat rank + unat ii) mod unat kWorldSize"
    unfolding srcRank_def using lt by (simp only: unat_ucast_down m) simp
  moreover have "unat (srcRank kWorldSize rank ii) < 2 ^ 31"
    using lt calculation by simp
  ultimately show ?thesis unfolding srcRanks_def by (simp only: scast_small)
qed

lemma allGatherIndex_nat:
  assumes W: "2 \<le> unat kWorldSize" "unat kWorldSize \<le> 8"
    and r: "unat rank < unat kWorldSize"
    and ii: "1 \<le> unat ii" "unat ii < unat kWorldSize"
    and i: "unat i < unat (N_per_rank kWorldSize N_aligned)"
  shows "unat (allGatherIndex kWorldSize N_aligned rank ii i) =
           unat (srcRanks kWorldSize rank ii) * unat (N_per_rank kWorldSize N_aligned) + unat i
       \<and> unat (allGatherIndex kWorldSize N_aligned rank ii i) < unat N_aligned
       \<and> (unat (srcRanks kWorldSize rank ii) < unat rank \<longrightarrow>
            unat (srcRanks kWorldSize rank ii - rank) =
              2 ^ 64 - (unat rank - unat (srcRanks kWorldSize rank ii)))"
proof -
  let ?s = "srcRanks kWorldSize rank ii"
  let ?p = "N_per_rank kWorldSize N_aligned"
  have Wpos: "0 < unat kWorldSize" using W by simp
  have s: "unat ?s = (unat rank + unat ii) mod unat kWorldSize"
    using unat_srcRanks [OF Wpos W(2) r ii(2)] .
  have s_lt: "unat ?s < unat kWorldSize" unfolding s using Wpos by simp
  have p: "unat ?p = unat N_aligned div unat kWorldSize"
    unfolding N_per_rank_def by (simp only: unat_div unat_ucast_up)
  have "Suc (unat ?s) * unat ?p \<le> unat kWorldSize * unat ?p"
    using s_lt by (intro mult_le_mono1) simp
  also have "\<dots> \<le> unat N_aligned" unfolding p by simp
  finally have bound: "unat ?s * unat ?p + unat ?p \<le> unat N_aligned" by simp
  have n64: "unat N_aligned < 2 ^ 64" using unsigned_less [of N_aligned] by simp
  have "unat ?s * unat ?p < 2 ^ LENGTH(64)" using bound n64 by simp
  then have m: "unat (?s * ?p) = unat ?s * unat ?p" by (simp only: unat_mult_lem)
  have "unat (?s * ?p) + unat i < 2 ^ LENGTH(64)" using bound n64 i m by simp
  then have "unat (?s * ?p + i) = unat (?s * ?p) + unat i"
    by (simp only: unat_add_lem)
  then have a: "unat (?s * ?p + i) = unat ?s * unat ?p + unat i"
    by (simp only: m)
  have k: "allGatherIndex kWorldSize N_aligned rank ii i = ?s * ?p + i"
    unfolding allGatherIndex_def N_start_def by (simp add: algebra_simps)
  have wrap: "unat (?s - rank) = 2 ^ 64 - (unat rank - unat ?s)" if "unat ?s < unat rank"
  proof -
    have rk: "unat rank < 2 ^ 64" using unsigned_less [of rank] by simp
    have "unat (?s - rank) = unat ?s + 2 ^ 64 - unat rank"
      using that by (simp add: unat_sub_if_size word_size)
    then show ?thesis using that rk by simp
  qed
  show ?thesis using a k bound i wrap by simp
qed

text \<open>
  Claim C9.  In the all-gather phase of the two-shot kernel, for every rank below the
  world size \<open>W \<in> [2, 8]\<close>, every \<open>ii \<in> [1, W)\<close> and every position \<open>i\<close> below
  \<open>N_per_rank\<close>, the index \<open>k = N_start + i + (srcRanks[ii] - rank) * N_per_rank\<close>, computed
  modulo \<open>2 ^ 64\<close>, equals \<open>srcRanks[ii] * N_per_rank + i\<close> exactly and lies below
  \<open>N_aligned\<close>; when \<open>srcRanks[ii] < rank\<close> the subtraction wraps around.
\<close>

theorem allGatherIndex_exact:
  assumes W: "2 \<le> unat kWorldSize" "unat kWorldSize \<le> 8"
    and r: "unat rank < unat kWorldSize"
    and ii: "1 \<le> unat ii" "unat ii < unat kWorldSize"
    and i: "unat i < unat (N_per_rank kWorldSize N_aligned)"
  shows "unat (allGatherIndex kWorldSize N_aligned rank ii i) =
           unat (srcRanks kWorldSize rank ii) * unat (N_per_rank kWorldSize N_aligned) + unat i
       \<and> unat (allGatherIndex kWorldSize N_aligned rank ii i) < unat N_aligned
       \<and> (unat (srcRanks kWorldSize rank ii) < unat rank \<longrightarrow>
            unat (srcRanks kWorldSize rank ii - rank) =
              2 ^ 64 - (unat rank - unat (srcRanks kWorldSize rank ii)))"
  by (rule allGatherIndex_nat [OF assms])

theorem allGatherIndex_exact_witness:
  "unat (allGatherIndex 4 4096 3 2 5) =
     unat (srcRanks 4 3 2) * unat (N_per_rank 4 4096) + 5
   \<and> unat (allGatherIndex 4 4096 3 2 5) < 4096
   \<and> unat (srcRanks 4 3 2) < 3
   \<and> unat (srcRanks 4 3 2 - 3) = 2 ^ 64 - (3 - unat (srcRanks 4 3 2))"
  using allGatherIndex_exact [of 4 3 2 5 4096]
  by (simp add: N_per_rank_def srcRanks_def srcRank_def)

section \<open>Properties: algorithm selection\<close>

lemma numelPerWarp_bf16: "kBytesPerThread div elementSize kBFloat16 * kWarpSize = 256"
  by (simp add: kBytesPerThread_def kWarpSize_def)

lemma alignUp_nat:
  assumes n: "unat (n :: size_t) + g < 2 ^ 32" and g: "0 < g" "unat (b :: size_t) = g"
  shows "\<exists>a. alignUp (ucast n) (ucast b) = Inr a \<and> unat a = alignedTo g (unat n)"
proof -
  have n32: "unat (ucast n :: uint32_t) = unat n"
    using n g(1) by (simp only: unat_ucast_down) simp
  have b32: "unat (ucast b :: uint32_t) = g"
    using n g by (simp only: unat_ucast_down) simp
  have b0: "(ucast b :: uint32_t) \<noteq> 0" using b32 g(1) by auto
  have "unat (ucast n :: uint32_t) + unat (ucast b :: uint32_t) - 1 < 2 ^ 32"
    using n g(1) unfolding n32 b32 by simp
  from unat_alignUp [OF b0 this] show ?thesis
    unfolding n32 b32 alignedTo_def .
qed

lemma selectAllReduceAlgo_bf16:
  fixes kMaxIntraNodeSize worldSize :: size_t
  assumes k: "unat kMaxIntraNodeSize < 2 ^ 32"
    and bf: "dtype input = kBFloat16"
    and fit: "2 * unat (numel input) \<le> unat kMaxIntraNodeSize"
    and W: "1 \<le> unat worldSize" "unat worldSize \<le> 8"
  shows "selectAllReduceAlgo kMaxIntraNodeSize input topology worldSize =
    (if topology = HYBRID_CUBE_MESH then
       (if worldSize \<noteq> 8 then Inl TorchCheckFailed
        else if alignedTo 256 (unat (numel input)) \<le> 262144 then Inr HCM else Inr NONE)
     else if topology = FULLY_CONNECTED then
       (if alignedTo 256 (unat (numel input)) \<le> 262144 then Inr ONE_SHOT
        else if alignedTo (256 * unat worldSize) (unat (numel input)) \<le> 10485760
             then Inr TWO_SHOT else Inr NONE)
     else Inr NONE)"
proof -
  let ?n = "numel input"
  have n31: "unat ?n < 2 ^ 31" using k fit by simp
  have "unat ?n * unat (2 :: size_t) < 2 ^ 64" using n31 by simp
  then have "unat (?n * 2) = unat ?n * unat (2 :: size_t)" by (rule unat_mult_small)
  then have bytes: "unat (?n * element_size input) = 2 * unat ?n"
    by (simp add: element_size_def bf)
  have guard: "\<not> (dtype input \<noteq> kBFloat16 \<or> ?n * element_size input > kMaxIntraNodeSize)"
    using bf fit by (simp only: word_less_nat_alt bytes) simp
  have npw: "kBytesPerThread div element_size input * kWarpSize = 256"
    by (simp only: element_size_def bf numelPerWarp_bf16)
  have w256: "unat (256 * worldSize) = 256 * unat worldSize"
  proof -
    have "unat (256 :: size_t) * unat worldSize < 2 ^ 64" using W by simp
    then have "unat (256 * worldSize) = unat (256 :: size_t) * unat worldSize"
      by (rule unat_mult_small)
    then show ?thesis by simp
  qed
  obtain a1 where a1: "alignUp (ucast ?n) (ucast (256 :: size_t)) = Inr a1"
      "unat a1 = alignedTo 256 (unat ?n)"
    using alignUp_nat [of ?n 256 256] n31 by auto
  obtain aw where aw: "alignUp (ucast ?n) (ucast (256 * worldSize)) = Inr aw"
      "unat aw = alignedTo (256 * unat worldSize) (unat ?n)"
    using alignUp_nat [of ?n "256 * unat worldSize" "256 * worldSize"] n31 W w256 by auto
  have c1: "a1 \<le> kHcmThreshBytes \<longleftrightarrow> alignedTo 256 (unat ?n) \<le> 262144"
    by (simp add: word_le_nat_alt a1(2) kHcmThreshBytes_def)
  have c2: "a1 \<le> kOneShotThreshBytes \<longleftrightarrow> alignedTo 256 (unat ?n) \<le> 262144"
    by (simp add: word_le_nat_alt a1(2) kOneShotThreshBytes_def)
  have c3: "aw \<le> kTwoShotThreshBytes \<longleftrightarrow> alignedTo (256 * unat worldSize) (unat ?n) \<le> 10485760"
    by (simp add: word_le_nat_alt aw(2) kTwoShotThreshBytes_def)
  show ?thesis
    unfolding selectAllReduceAlgo_def Let_def npw
    using guard a1(1) aw(1) c1 c2 c3
    by (cases topology) simp_all
qed

lemma alignedTo_bounds:
  assumes "0 < g"
  shows "n \<le> alignedTo g n" and "alignedTo g n < n + g"
proof -
  let ?m = "n + g - 1"
  have m: "?m = ?m div g * g + ?m mod g" by simp
  have r: "?m mod g < g" using assms by simp
  have r': "?m mod g \<le> g - 1" using r by simp
  have "?m - (g - 1) \<le> ?m div g * g" using m r' by linarith
  then show "n \<le> alignedTo g n" using assms by (simp add: alignedTo_def)
  have "?m div g * g \<le> ?m" by (rule div_times_less_eq_dividend)
  also have "?m < n + g" using assms by simp
  finally show "alignedTo g n < n + g" by (simp only: alignedTo_def)
qed

lemma selectAllReduceAlgo_rejects:
  fixes kMaxIntraNodeSize :: size_t
  assumes n: "unat (numel input) < 2 ^ 63"
    and rej: "dtype input \<noteq> kBFloat16 \<or> unat kMaxIntraNodeSize < 2 * unat (numel input)"
  shows "selectAllReduceAlgo kMaxIntraNodeSize input topology worldSize = Inr NONE"
proof (cases "dtype input = kBFloat16")
  case False
  then show ?thesis by (simp add: selectAllReduceAlgo_def)
next
  case True
  have "unat (numel input) * unat (2 :: size_t) < 2 ^ 64" using n by simp
  then have "unat (numel input * 2) = unat (numel input) * unat (2 :: size_t)"
    by (rule unat_mult_small)
  then have "unat (numel input * element_size input) = 2 * unat (numel input)"
    by (simp add: element_size_def True)
  then have "numel input * element_size input > kMaxIntraNodeSize"
    using rej True by (simp only: word_less_nat_alt) simp
  then show ?thesis by (simp add: selectAllReduceAlgo_def)
qed

text \<open>
  Claim C2, as amended.  With a world size in \<open>[2, 8]\<close> and a cap below 4 GiB,
  \<open>selectAllReduceAlgo\<close> returns \<open>NONE\<close> when the dtype is not bf16 or the payload exceeds
  \<open>kMaxIntraNodeSize\<close> bytes.  Otherwise, on a hybrid cube mesh it raises unless the world
  size is 8; with world size 8 it returns \<open>HCM\<close> when the warp-aligned payload is at most
  256 KiB and \<open>NONE\<close> when the warp-aligned element count exceeds \<open>256 * 1024\<close>.  On a fully
  connected topology it returns \<open>ONE_SHOT\<close> when the warp-aligned payload is at most
  256 KiB, \<open>TWO_SHOT\<close> when the warp-aligned element count exceeds \<open>256 * 1024\<close> and the
  payload aligned to world size times warp granularity is at most 10 MiB, and \<open>NONE\<close> when
  that aligned element count exceeds \<open>10 * 1024 * 1024\<close>.  On any other topology it
  returns \<open>NONE\<close>.  Sizes between a threshold read in bytes and the same threshold read
  in elements are left open.
\<close>

theorem selectAllReduceAlgo_amended:
  fixes kMaxIntraNodeSize worldSize :: size_t and input :: Tensor and topology :: Topology
  defines "n \<equiv> unat (numel input)"
  defines "alignedWarp \<equiv> alignedTo 256 n"
  defines "alignedWorld \<equiv> alignedTo (256 * unat worldSize) n"
  defines "result \<equiv> selectAllReduceAlgo kMaxIntraNodeSize input topology worldSize"
  assumes k: "unat kMaxIntraNodeSize < 2 ^ 32" and n63: "n < 2 ^ 63"
    and W: "2 \<le> unat worldSize" "unat worldSize \<le> 8"
  shows
    "(dtype input \<noteq> kBFloat16 \<or> unat kMaxIntraNodeSize < 2 * n \<longrightarrow> result = Inr NONE) \<and>
     (dtype input = kBFloat16 \<and> 2 * n \<le> unat kMaxIntraNodeSize \<longrightarrow>
        (topology = HYBRID_CUBE_MESH \<longrightarrow>
           (worldSize \<noteq> 8 \<longrightarrow> result = Inl TorchCheckFailed) \<and>
           (worldSize = 8 \<and> 2 * alignedWarp \<le> 256 * 1024 \<longrightarrow> result = Inr HCM) \<and>
           (worldSize = 8 \<and> 256 * 1024 < alignedWarp \<longrightarrow> result = Inr NONE)) \<and>
        (topology = FULLY_CONNECTED \<longrightarrow>
           (2 * alignedWarp \<le> 256 * 1024 \<longrightarrow> result = Inr ONE_SHOT) \<and>
           (256 * 1024 < alignedWarp \<and> 2 * alignedWorld \<le> 10 * 1024 * 1024 \<longrightarrow>
              result = Inr TWO_SHOT) \<and>
           (10 * 1024 * 1024 < alignedWorld \<longrightarrow> result = Inr NONE)) \<and>
        (topology = UNSUPPORTED \<longrightarrow> result = Inr NONE))"
proof (intro conjI impI)
  assume "dtype input \<noteq> kBFloat16 \<or> unat kMaxIntraNodeSize < 2 * n"
  then show "result = Inr NONE"
    unfolding result_def n_def using n63 [unfolded n_def] by (intro selectAllReduceAlgo_rejects)
next
  assume a: "dtype input = kBFloat16 \<and> 2 * n \<le> unat kMaxIntraNodeSize"
  have W1: "1 \<le> unat worldSize" using W by simp
  have bf: "dtype input = kBFloat16" and fit: "2 * unat (numel input) \<le> unat kMaxIntraNodeSize"
    using a by (simp_all add: n_def)
  have r: "result =
    (if topology = HYBRID_CUBE_MESH then
       (if worldSize \<noteq> 8 then Inl TorchCheckFailed
        else if alignedWarp \<le> 262144 then Inr HCM else Inr NONE)
     else if topology = FULLY_CONNECTED then
       (if alignedWarp \<le> 262144 then Inr ONE_SHOT
        else if alignedWorld \<le> 10485760 then Inr TWO_SHOT else Inr NONE)
     else Inr NONE)"
    unfolding result_def alignedWarp_def alignedWorld_def n_def
    by (rule selectAllReduceAlgo_bf16 [OF k bf fit W1 W(2)])
  have b1: "n \<le> alignedWarp" unfolding alignedWarp_def by (rule alignedTo_bounds) simp
  have b2: "alignedWorld < n + 256 * unat worldSize"
    unfolding alignedWorld_def using W by (intro alignedTo_bounds) simp
  have big: "10485760 < alignedWorld \<Longrightarrow> 262144 < alignedWarp"
    using b1 b2 W by simp
  { assume "topology = HYBRID_CUBE_MESH" "worldSize \<noteq> 8"
    then show "result = Inl TorchCheckFailed" using r by simp }
  { assume "topology = HYBRID_CUBE_MESH" "worldSize = 8 \<and> 2 * alignedWarp \<le> 256 * 1024"
    then show "result = Inr HCM" using r by simp }
  { assume "topology = HYBRID_CUBE_MESH" "worldSize = 8 \<and> 256 * 1024 < alignedWarp"
    then show "result = Inr NONE" using r by simp }
  { assume "topology = FULLY_CONNECTED" "2 * alignedWarp \<le> 256 * 1024"
    then show "result = Inr ONE_SHOT" using r by simp }
  { assume "topology = FULLY_CONNECTED"
      "256 * 1024 < alignedWarp \<and> 2 * alignedWorld \<le> 10 * 1024 * 1024"
    then show "result = Inr TWO_SHOT" using r by simp }
  { assume "topology = FULLY_CONNECTED" "10 * 1024 * 1024 < alignedWorld"
    then show "result = Inr NONE" using r big by simp }
  { assume "topology = UNSUPPORTED"
    then show "result = Inr NONE" using r by simp }
qed

theorem selectAllReduceAlgo_amended_witness:
  "selectAllReduceAlgo 20971520
     \<lparr>dtype = kBFloat16, numel = 8, is_non_overlapping_and_dense = True,
      is_cuda = True, get_device = 0\<rparr> FULLY_CONNECTED 2 = Inr ONE_SHOT"
  using selectAllReduceAlgo_amended [of 20971520
     "\<lparr>dtype = kBFloat16, numel = 8, is_non_overlapping_and_dense = True,
      is_cuda = True, get_device = 0\<rparr>" 2 FULLY_CONNECTED]
  by (simp add: alignedTo_def)

text \<open>
  Claim C2 as stated fails on a hybrid cube mesh with a world size other than 8: the
  selection rule of the spec yields an algorithm, the code raises at its \<open>TORCH_CHECK\<close>.
\<close>

theorem selectAllReduceAlgo_counterexample:
  "selectAllReduceAlgo 20971520
     \<lparr>dtype = kBFloat16, numel = 8, is_non_overlapping_and_dense = True,
      is_cuda = True, get_device = 0\<rparr> HYBRID_CUBE_MESH 4
   \<noteq> Inr (spec_selectAllReduceAlgo 20971520
     \<lparr>dtype = kBFloat16, numel = 8, is_non_overlapping_and_dense = True,
      is_cuda = True, get_device = 0\<rparr> HYBRID_CUBE_MESH 4)"
  by (simp add: selectAllReduceAlgo_def element_size_def)

text \<open>
  The thresholds are compared with the aligned element count, not with the byte size:
  200000 bf16 elements are 400384 bytes after alignment, above 256 KiB, and the code
  still selects \<open>ONE_SHOT\<close>.
\<close>

lemma selectAllReduceAlgo_units:
  "selectAllReduceAlgo 20971520
     \<lparr>dtype = kBFloat16, numel = 200000, is_non_overlapping_and_dense = True,
      is_cuda = True, get_device = 0\<rparr> FULLY_CONNECTED 2 = Inr ONE_SHOT \<and>
   spec_selectAllReduceAlgo 20971520
     \<lparr>dtype = kBFloat16, numel = 200000, is_non_overlapping_and_dense = True,
      is_cuda = True, get_device = 0\<rparr> FULLY_CONNECTED 2 = TWO_SHOT"
  by (simp add: selectAllReduceAlgo_def spec_selectAllReduceAlgo_def alignedTo_def
      element_size_def alignUp_def divUp_def kBytesPerThread_def kWarpSize_def
      kOneShotThreshBytes_def)

section \<open>Properties: hybrid cube mesh role table\<close>

lemma set_buildNeighbors_aux:
  "set (fold (\<lambda>j s. if P j then us_insert j s else s) js s) \<subseteq> set s \<union> set js"
proof (induction js arbitrary: s)
  case Nil
  show ?case by simp
next
  case (Cons a js)
  have "set (if P a then us_insert a s else s) \<subseteq> set s \<union> {a}"
    by (auto simp: us_insert_def)
  then show ?case using Cons [of "if P a then us_insert a s else s"] by auto
qed

lemma set_buildNeighbors: "set (buildNeighbors nvlMesh i) \<subseteq> {0..<kMaxDevices}"
  unfolding buildNeighbors_def using set_buildNeighbors_aux [of _ "[0..<kMaxDevices]" "[]"]
  by auto

lemma relayNeighbors_single:
  assumes "relayNeighbors masks i = [r]"
  shows "r < kMaxDevices" and "(masks ! i) AND (masks ! r) = 0"
    and "\<And>j. j < kMaxDevices \<Longrightarrow> (masks ! i) AND (masks ! j) = 0 \<Longrightarrow> j = r"
proof -
  have s: "set (relayNeighbors masks i) = {r}" using assms by simp
  have "r \<in> set (relayNeighbors masks i)" using s by simp
  then show "r < kMaxDevices" and "(masks ! i) AND (masks ! r) = 0"
    by (simp_all add: relayNeighbors_def)
  fix j assume "j < kMaxDevices" "(masks ! i) AND (masks ! j) = 0"
  then have "j \<in> set (relayNeighbors masks i)" by (simp add: relayNeighbors_def)
  then show "j = r" using s by simp
qed

lemma relay_involutive:
  assumes i: "i < kMaxDevices" "relayNeighbors masks i = [r]"
    and r: "relayNeighbors masks r = [r']"
  shows "r' = i"
proof -
  have "(masks ! i) AND (masks ! r) = 0" using relayNeighbors_single(2) [OF i(2)] .
  then have "(masks ! r) AND (masks ! i) = 0" by (simp add: and.commute)
  then have "i = r'" using relayNeighbors_single(3) [OF r i(1)] by simp
  then show ?thesis by simp
qed

lemma length_setEntry [simp]: "length (setEntry hcm i k v) = length hcm"
  by (simp add: setEntry_def)

lemma length_setEntry_row [simp]: "length (setEntry hcm i k v ! x) = length (hcm ! x)"
  by (cases "i < length hcm"; cases "x = i") (simp_all add: setEntry_def list_update_beyond)

lemma setEntry_nth:
  assumes "i < length hcm" "k < length (hcm ! i)"
  shows "setEntry hcm i k v ! x ! c = (if x = i \<and> c = k then v else hcm ! x ! c)"
  using assms by (cases "x = i") (simp_all add: setEntry_def nth_list_update)

lemma relayNeighbors_one:
  assumes "length (relayNeighbors masks i) = 1"
  shows "relayNeighbors masks i = [relayOf masks i]"
  using assms unfolding relayOf_def by (cases "relayNeighbors masks i") simp_all

lemma assignRelays_Some:
  assumes "assignRelays masks ranks (nb, h) = Some (nb', h')" and "distinct ranks"
  shows "length nb' = length nb \<and> length h' = length h \<and>
     (\<forall>i. i \<notin> set ranks \<longrightarrow> nb' ! i = nb ! i \<and> h' ! i = h ! i) \<and>
     (\<forall>i\<in>set ranks. relayNeighbors masks i = [relayOf masks i] \<and>
        (i < length nb \<longrightarrow> nb' ! i = us_erase (relayOf masks i) (nb ! i)) \<and>
        (i < length h \<longrightarrow> h' ! i = (h ! i)[3 := int (relayOf masks i)]))"
  using assms
proof (induction ranks arbitrary: nb h)
  case Nil
  then show ?case by simp
next
  case (Cons a ranks)
  let ?r = "relayOf masks a"
  let ?nb1 = "nb[a := us_erase ?r (nb ! a)]"
  let ?h1 = "setEntry h a 3 (int ?r)"
  from Cons.prems(1) have one: "length (relayNeighbors masks a) = 1"
    by (auto split: if_splits)
  from Cons.prems(1) one have rec: "assignRelays masks ranks (?nb1, ?h1) = Some (nb', h')"
    by (auto simp: relayOf_def split: if_splits)
  have d: "distinct ranks" and a: "a \<notin> set ranks" using Cons.prems(2) by simp_all
  note ih = Cons.IH [OF rec d]
  have len: "length nb' = length nb" "length h' = length h" using ih by simp_all
  have out: "nb' ! i = nb ! i \<and> h' ! i = h ! i" if "i \<notin> set (a # ranks)" for i
  proof -
    have "i \<notin> set ranks" "i \<noteq> a" using that by simp_all
    then show ?thesis using ih by (simp add: setEntry_def)
  qed
  have here: "relayNeighbors masks a = [?r] \<and>
        (a < length nb \<longrightarrow> nb' ! a = us_erase ?r (nb ! a)) \<and>
        (a < length h \<longrightarrow> h' ! a = (h ! a)[3 := int ?r])"
    using ih a relayNeighbors_one [OF one] by (simp add: setEntry_def)
  have there: "relayNeighbors masks i = [relayOf masks i] \<and>
        (i < length nb \<longrightarrow> nb' ! i = us_erase (relayOf masks i) (nb ! i)) \<and>
        (i < length h \<longrightarrow> h' ! i = (h ! i)[3 := int (relayOf masks i)])" if "i \<in> set ranks" for i
  proof -
    have "i \<noteq> a" using that a by auto
    then show ?thesis using ih that by (simp add: setEntry_def)
  qed
  show ?case using len out here there by auto
qed

lemma roleInv_init:
  assumes "assignRelays masks [0..<kMaxDevices]
             (map (buildNeighbors nvlMesh) [0..<kMaxDevices],
              replicate kMaxDevices (replicate 4 (-1))) = Some st"
  shows "roleInv masks st"
proof -
  obtain nb' h' where st: "st = (nb', h')" by (cases st)
  note r = assignRelays_Some [OF assms [unfolded st] distinct_upt]
  have "length nb' = kMaxDevices" "length h' = kMaxDevices" using r by simp_all
  moreover have "length (h' ! i) = 4 \<and>
           relayNeighbors masks i = [relayOf masks i] \<and>
           h' ! i ! 3 = int (relayOf masks i) \<and>
           set (nb' ! i) \<subseteq> {0..<kMaxDevices} - {relayOf masks i} \<and>
           (\<forall>k<3. h' ! i ! k = -1 \<or>
                   (\<exists>j<kMaxDevices. h' ! i ! k = int j \<and> j \<noteq> relayOf masks i))"
    if i: "i < kMaxDevices" for i
  proof -
    have m: "i \<in> set [0..<kMaxDevices]" using i by simp
    have rel: "relayNeighbors masks i = [relayOf masks i]" using r m by blast
    have nb: "nb' ! i = us_erase (relayOf masks i) (buildNeighbors nvlMesh i)"
      using r m i by simp
    have h: "h' ! i = (replicate 4 (-1))[3 := int (relayOf masks i)]"
      using r m i by simp
    have "set (nb' ! i) \<subseteq> {0..<kMaxDevices} - {relayOf masks i}"
      unfolding nb us_erase_def using set_buildNeighbors [of nvlMesh i] by auto
    moreover have "\<forall>k<3. h' ! i ! k = -1" unfolding h by (auto simp: nth_list_update)
    ultimately show ?thesis using rel h by simp
  qed
  ultimately show ?thesis unfolding roleInv_def st by simp
qed

lemma firstUnfilled_Some:
  "firstUnfilled hcm k js = Some j \<Longrightarrow> j \<in> set js \<and> hcm ! j ! k = -1"
  by (induction js) (auto split: if_splits)

lemma roleInv_fillEntry:
  assumes inv: "roleInv masks st" and i: "i < kMaxDevices" and k: "k < 3"
    and iter: "\<And>s. set (iteration s) \<subseteq> set s"
    and res: "fillEntry iteration i k st = Inr st'"
  shows "roleInv masks st'" and "snd st' ! i ! k \<noteq> -1"
    and "\<And>x c. x < kMaxDevices \<Longrightarrow> c < 3 \<Longrightarrow> snd st ! x ! c \<noteq> -1 \<Longrightarrow> snd st' ! x ! c \<noteq> -1"
proof -
  obtain nb h where st: "st = (nb, h)" by (cases st)
  let ?rho = "relayOf masks"
  have len: "length nb = kMaxDevices" "length h = kMaxDevices"
    and row: "\<And>x. x < kMaxDevices \<Longrightarrow> length (h ! x) = 4"
    and rel: "\<And>x. x < kMaxDevices \<Longrightarrow> relayNeighbors masks x = [?rho x]"
    and col3: "\<And>x. x < kMaxDevices \<Longrightarrow> h ! x ! 3 = int (?rho x)"
    and nbs: "\<And>x. x < kMaxDevices \<Longrightarrow> set (nb ! x) \<subseteq> {0..<kMaxDevices} - {?rho x}"
    and ent: "\<And>x c. x < kMaxDevices \<Longrightarrow> c < 3 \<Longrightarrow>
                h ! x ! c = -1 \<or> (\<exists>j<kMaxDevices. h ! x ! c = int j \<and> j \<noteq> ?rho x)"
    using inv unfolding roleInv_def st by auto
  define h' where "h' = (case firstUnfilled h k (iteration (nb ! i)) of
                      None \<Rightarrow> h
                    | Some j \<Rightarrow> setEntry (setEntry h i k (int j)) j k (int i))"
  have ok: "h' ! i ! k \<noteq> -1"
    and st': "st' = (nb[i := us_erase (nat (h' ! i ! k)) (nb ! i)], h')"
    using res unfolding fillEntry_def st h'_def Let_def by (auto split: if_splits)
  have shape: "length h' = kMaxDevices" "\<And>x. x < kMaxDevices \<Longrightarrow> length (h' ! x) = 4"
    unfolding h'_def using len row by (auto split: option.splits)
  have new: "h' ! x ! c = h ! x ! c \<or>
       (c = k \<and> (\<exists>j<kMaxDevices. h' ! x ! c = int j \<and> j \<noteq> ?rho x))"
    if x: "x < kMaxDevices" and c: "c < 4" for x c
  proof (cases "firstUnfilled h k (iteration (nb ! i))")
    case None
    then show ?thesis by (simp add: h'_def)
  next
    case (Some j)
    have "j \<in> set (iteration (nb ! i))" using firstUnfilled_Some [OF Some] by simp
    then have "j \<in> set (nb ! i)" using iter by blast
    then have j: "j < kMaxDevices" "j \<noteq> ?rho i" using nbs [OF i] by auto
    have ii: "i \<noteq> ?rho j"
    proof
      assume e: "i = ?rho j"
      have "relayNeighbors masks j = [i]" using rel [OF j(1)] e by simp
      from relay_involutive [OF j(1) this rel [OF i]] show False using j(2) by simp
    qed
    have k4: "k < 4" using k by simp
    have eq: "h' ! x ! c =
        (if x = j \<and> c = k then int i else if x = i \<and> c = k then int j else h ! x ! c)"
      unfolding h'_def Some using i j(1) k4 len row
      by (simp add: setEntry_nth)
    show ?thesis using eq i j ii by auto
  qed
  have nb_sub: "set ((nb[i := us_erase (nat (h' ! i ! k)) (nb ! i)]) ! x) \<subseteq> set (nb ! x)"
    if "x < kMaxDevices" for x
    using that len by (cases "x = i") (auto simp: us_erase_def)
  have P: "length (h' ! x) = 4 \<and>
           relayNeighbors masks x = [?rho x] \<and>
           h' ! x ! 3 = int (?rho x) \<and>
           set (nb[i := us_erase (nat (h' ! i ! k)) (nb ! i)] ! x)
             \<subseteq> {0..<kMaxDevices} - {?rho x} \<and>
           (\<forall>c<3. h' ! x ! c = -1 \<or>
                   (\<exists>j<kMaxDevices. h' ! x ! c = int j \<and> j \<noteq> ?rho x))"
    if x: "x < kMaxDevices" for x
  proof (intro conjI allI impI)
    show "length (h' ! x) = 4" by (rule shape(2) [OF x])
    show "relayNeighbors masks x = [?rho x]" by (rule rel [OF x])
    show "h' ! x ! 3 = int (?rho x)" using new [OF x, of 3] k col3 [OF x] by auto
    show "set (nb[i := us_erase (nat (h' ! i ! k)) (nb ! i)] ! x) \<subseteq> {0..<kMaxDevices} - {?rho x}"
      using nb_sub [OF x] nbs [OF x] by blast
    fix c :: nat assume c: "c < 3"
    then have c4: "c < 4" by simp
    show "h' ! x ! c = -1 \<or> (\<exists>j<kMaxDevices. h' ! x ! c = int j \<and> j \<noteq> ?rho x)"
      using new [OF x c4] ent [OF x c] by auto
  qed
  show "roleInv masks st'"
    unfolding roleInv_def st' using len shape(1) P by simp
  show "snd st' ! i ! k \<noteq> -1" using ok by (simp add: st')
  fix x c assume x: "x < kMaxDevices" and c: "c < 3" and f: "snd st ! x ! c \<noteq> -1"
  have c4: "c < 4" using c by simp
  show "snd st' ! x ! c \<noteq> -1" using new [OF x c4] f by (auto simp: st st')
qed

lemma roleInv_fillRow:
  assumes "roleInv masks st" and "i < kMaxDevices" and "set ks \<subseteq> {0..<3}"
    and iter: "\<And>s. set (iteration s) \<subseteq> set s"
    and "fillRow iteration i ks st = Inr st'"
  shows "roleInv masks st' \<and> (\<forall>k\<in>set ks. snd st' ! i ! k \<noteq> -1) \<and>
    (\<forall>x<kMaxDevices. \<forall>c<3. snd st ! x ! c \<noteq> -1 \<longrightarrow> snd st' ! x ! c \<noteq> -1)"
  using assms(1,3,5)
proof (induction ks arbitrary: st)
  case Nil
  then show ?case by simp
next
  case (Cons k ks)
  from Cons.prems(3) obtain st1 where s1: "fillEntry iteration i k st = Inr st1"
      and s2: "fillRow iteration i ks st1 = Inr st'"
    by (auto split: sum.splits)
  have k: "k < 3" and ks: "set ks \<subseteq> {0..<3}" using Cons.prems(2) by simp_all
  note e = roleInv_fillEntry [OF Cons.prems(1) assms(2) k iter s1]
  note ih = Cons.IH [OF e(1) ks s2]
  have "snd st' ! i ! k \<noteq> -1" using ih e(2) assms(2) k by blast
  moreover have "\<forall>x<kMaxDevices. \<forall>c<3. snd st ! x ! c \<noteq> -1 \<longrightarrow> snd st' ! x ! c \<noteq> -1"
    using ih e(3) by blast
  ultimately show ?case using ih by simp
qed

lemma roleInv_fillRows:
  assumes "roleInv masks st" and "set ranks \<subseteq> {0..<kMaxDevices}"
    and iter: "\<And>s. set (iteration s) \<subseteq> set s"
    and "fillRows iteration ranks st = Inr st'"
  shows "roleInv masks st' \<and> (\<forall>i\<in>set ranks. \<forall>k<3. snd st' ! i ! k \<noteq> -1) \<and>
    (\<forall>x<kMaxDevices. \<forall>c<3. snd st ! x ! c \<noteq> -1 \<longrightarrow> snd st' ! x ! c \<noteq> -1)"
  using assms(1,2,4)
proof (induction ranks arbitrary: st)
  case Nil
  then show ?case by simp
next
  case (Cons i ranks)
  from Cons.prems(3) obtain st1 where s1: "fillRow iteration i [0..<3] st = Inr st1"
      and s2: "fillRows iteration ranks st1 = Inr st'"
    by (auto split: sum.splits)
  have i: "i < kMaxDevices" and rs: "set ranks \<subseteq> {0..<kMaxDevices}"
    using Cons.prems(2) by simp_all
  have r: "roleInv masks st1 \<and> (\<forall>k\<in>set [0..<3]. snd st1 ! i ! k \<noteq> -1) \<and>
    (\<forall>x<kMaxDevices. \<forall>c<3. snd st ! x ! c \<noteq> -1 \<longrightarrow> snd st1 ! x ! c \<noteq> -1)"
    by (rule roleInv_fillRow [OF Cons.prems(1) i _ iter s1]) simp
  note ih = Cons.IH [OF r [THEN conjunct1] rs s2]
  have "\<forall>k<3. snd st' ! i ! k \<noteq> -1" using ih r i by auto
  moreover have "\<forall>x<kMaxDevices. \<forall>c<3. snd st ! x ! c \<noteq> -1 \<longrightarrow> snd st' ! x ! c \<noteq> -1"
    using ih r by blast
  ultimately show ?case using ih by simp
qed

lemma getHybridCubeMesh_Some:
  assumes iter: "\<And>s. set (iteration s) \<subseteq> set s"
    and res: "getHybridCubeMesh iteration nvlMesh = Inr (Some hcm)"
  shows "\<exists>neighbors.
     roleInv (map (buildNeighborMask nvlMesh) [0..<kMaxDevices]) (neighbors, hcm) \<and>
     (\<forall>i<kMaxDevices. \<forall>k<3. hcm ! i ! k \<noteq> -1)"
proof -
  let ?masks = "map (buildNeighborMask nvlMesh) [0..<kMaxDevices]"
  let ?init = "(map (buildNeighbors nvlMesh) [0..<kMaxDevices],
                replicate kMaxDevices (replicate 4 (-1 :: int)))"
  from res obtain st nb where a: "assignRelays ?masks [0..<kMaxDevices] ?init = Some st"
      and f: "fillRows iteration [0..<kMaxDevices] st = Inr (nb, hcm)"
    unfolding getHybridCubeMesh_def Let_def
    by (auto split: option.splits sum.splits)
  have "roleInv ?masks st" by (rule roleInv_init [OF a])
  from roleInv_fillRows [OF this _ iter f] show ?thesis by auto
qed

lemma getHybridCubeMesh_outcomes:
  "getHybridCubeMesh iteration nvlMesh = Inr None \<or>
   getHybridCubeMesh iteration nvlMesh = Inl TorchCheckFailed \<or>
   (\<exists>hcm. getHybridCubeMesh iteration nvlMesh = Inr (Some hcm))"
proof -
  have e: "fillEntry iteration i k st = Inl e \<Longrightarrow> e = TorchCheckFailed" for i k st e
    unfolding fillEntry_def by (auto simp: Let_def split: prod.splits if_splits)
  have r: "fillRow iteration i ks st = Inl e \<Longrightarrow> e = TorchCheckFailed" for i ks st e
    by (induction ks arbitrary: st) (auto split: sum.splits dest: e)
  have rs: "fillRows iteration ranks st = Inl e \<Longrightarrow> e = TorchCheckFailed" for ranks st e
    by (induction ranks arbitrary: st) (auto split: sum.splits dest: r)
  show ?thesis
    unfolding getHybridCubeMesh_def Let_def
    by (auto split: option.splits sum.splits dest: rs)
qed

text \<open>
  What every returned table does satisfy, for every adjacency matrix and every traversal
  order: all four entries of every rank are assigned, and the relay column is an
  involution.
\<close>

lemma role_table_assigned_and_involutive:
  assumes iter: "\<And>s. set (iteration s) \<subseteq> set s"
    and res: "getHybridCubeMesh iteration nvlMesh = Inr (Some hcm)"
    and x: "x < kMaxDevices"
  shows "(\<forall>k<4. hcm ! x ! k \<noteq> -1) \<and> 0 \<le> hcm ! x ! 3 \<and> nat (hcm ! x ! 3) < kMaxDevices \<and>
    hcm ! nat (hcm ! x ! 3) ! 3 = int x"
proof -
  let ?masks = "map (buildNeighborMask nvlMesh) [0..<kMaxDevices]"
  obtain nb where inv: "roleInv ?masks (nb, hcm)"
      and full: "\<forall>i<kMaxDevices. \<forall>k<3. hcm ! i ! k \<noteq> -1"
    using getHybridCubeMesh_Some [OF iter res] by auto
  have rel: "relayNeighbors ?masks i = [relayOf ?masks i]"
    and col3: "hcm ! i ! 3 = int (relayOf ?masks i)" if "i < kMaxDevices" for i
    using inv that unfolding roleInv_def by simp_all
  have r: "relayOf ?masks x < kMaxDevices"
    by (rule relayNeighbors_single(1) [OF rel [OF x]])
  have "relayOf ?masks (relayOf ?masks x) = x"
    by (rule relay_involutive [OF x rel [OF x] rel [OF r]])
  then have inv3: "hcm ! nat (hcm ! x ! 3) ! 3 = int x"
    using col3 [OF x] col3 [OF r] by simp
  have "hcm ! x ! k \<noteq> -1" if "k < 4" for k
  proof (cases "k = 3")
    case True
    then show ?thesis using col3 [OF x] by simp
  next
    case False
    then have "k < 3" using that by simp
    then show ?thesis using full x by simp
  qed
  then show ?thesis using inv3 col3 [OF x] r by simp
qed

text \<open>
  Claim C8.  For every role table produced by \<open>getHybridCubeMesh\<close> and every rank \<open>x\<close>, the
  relay entry \<open>hcm[x][3]\<close> differs from each of the three direct-neighbour entries
  \<open>hcm[x][0..2]\<close>; consequently the signal cell the relay handshake acquires (and the one
  it releases) is none of the cells used by the barrier with the three direct
  neighbours.  The traversal order of the neighbour sets is arbitrary.
\<close>

theorem relay_not_a_direct_neighbor:
  assumes iter: "\<And>s. set (iteration s) \<subseteq> set s"
    and res: "getHybridCubeMesh iteration nvlMesh = Inr (Some hcm)"
    and x: "x < kMaxDevices"
  shows "(\<forall>k<3. hcm ! x ! 3 \<noteq> hcm ! x ! k) \<and>
    hcmRelayAcquire (hcm ! x) x block \<notin> set (hcmBarrierAcquires (hcm ! x) x block) \<and>
    hcmRelayRelease (hcm ! x) x block \<notin> set (hcmBarrierReleases (hcm ! x) x block)"
proof -
  let ?masks = "map (buildNeighborMask nvlMesh) [0..<kMaxDevices]"
  obtain nb where inv: "roleInv ?masks (nb, hcm)"
      and full: "\<forall>i<kMaxDevices. \<forall>k<3. hcm ! i ! k \<noteq> -1"
    using getHybridCubeMesh_Some [OF iter res] by auto
  have col3: "hcm ! x ! 3 = int (relayOf ?masks x)"
    using inv x unfolding roleInv_def by simp
  have "\<forall>k<3. hcm ! x ! k = -1 \<or>
      (\<exists>j<kMaxDevices. hcm ! x ! k = int j \<and> j \<noteq> relayOf ?masks x)"
    using inv x unfolding roleInv_def by simp
  then have ent: "\<exists>j. hcm ! x ! k = int j \<and> j \<noteq> relayOf ?masks x" if "k < 3" for k
    using that full x by blast
  have d1: "\<forall>k<3. hcm ! x ! 3 \<noteq> hcm ! x ! k"
    using ent col3 by fastforce
  have d2: "\<forall>k<3. nat (hcm ! x ! 3) \<noteq> nat (hcm ! x ! k)"
    using ent col3 by fastforce
  have "hcmRelayAcquire (hcm ! x) x block \<notin> set (hcmBarrierAcquires (hcm ! x) x block)"
    unfolding hcmRelayAcquire_def hcmBarrierAcquires_def using d2 by (simp add: image_iff)
  moreover have "hcmRelayRelease (hcm ! x) x block \<notin> set (hcmBarrierReleases (hcm ! x) x block)"
    unfolding hcmRelayRelease_def hcmBarrierReleases_def using d2 by (simp add: image_iff)
  ultimately show ?thesis using d1 by simp
qed

lemma libstdcxx_order_sub: "set (libstdcxx_order s) \<subseteq> set s"
  by (simp add: libstdcxx_order_def)

lemma insertion_order_sub: "set (insertion_order s) \<subseteq> set s"
  by (simp add: insertion_order_def)

lemma cubeMesh_table:
  "getHybridCubeMesh libstdcxx_order cubeMesh =
     Inr (Some [[3, 2, 1, 4], [2, 3, 0, 5], [1, 0, 3, 6], [0, 1, 2, 7],
                [7, 6, 5, 0], [6, 7, 4, 1], [5, 4, 7, 2], [4, 5, 6, 3]])"
  by code_simp

theorem relay_not_a_direct_neighbor_witness:
  "getHybridCubeMesh libstdcxx_order cubeMesh =
     Inr (Some [[3, 2, 1, 4], [2, 3, 0, 5], [1, 0, 3, 6], [0, 1, 2, 7],
                [7, 6, 5, 0], [6, 7, 4, 1], [5, 4, 7, 2], [4, 5, 6, 3]]) \<and>
   [3, 2, 1, 4 :: int] ! 3 \<noteq> [3, 2, 1, 4] ! 0 \<and>
   [3, 2, 1, 4 :: int] ! 3 \<noteq> [3, 2, 1, 4] ! 1 \<and>
   [3, 2, 1, 4 :: int] ! 3 \<noteq> [3, 2, 1, 4] ! 2 \<and>
   hcmRelayAcquire [3, 2, 1, 4] 0 0 \<notin> set (hcmBarrierAcquires [3, 2, 1, 4] 0 0) \<and>
   hcmRelayRelease [3, 2, 1, 4] 0 0 \<notin> set (hcmBarrierReleases [3, 2, 1, 4] 0 0)"
  using relay_not_a_direct_neighbor [OF libstdcxx_order_sub cubeMesh_table, of 0 0] cubeMesh_table
  by (simp add: kMaxDevices_def)

text \<open>
  On a matrix that passes the recognition checks the third loop nest either fails its
  check \<^verbatim>\<open>hcm[i][k] != -1\<close> and raises, or returns a table in which every neighbour entry
  is assigned.
\<close>

lemma recognised_outcomes:
  assumes iter: "\<And>s. set (iteration s) \<subseteq> set s"
    and rec: "passesRecognition nvlMesh"
  shows "getHybridCubeMesh iteration nvlMesh = Inl TorchCheckFailed \<or>
    (\<exists>hcm. getHybridCubeMesh iteration nvlMesh = Inr (Some hcm) \<and>
           (\<forall>i<kMaxDevices. \<forall>k<3. hcm ! i ! k \<noteq> -1))"
proof -
  have "getHybridCubeMesh iteration nvlMesh \<noteq> Inr None"
    using rec unfolding passesRecognition_def getHybridCubeMesh_def Let_def
    by (auto split: option.splits sum.splits)
  then consider "getHybridCubeMesh iteration nvlMesh = Inl TorchCheckFailed"
    | hcm where "getHybridCubeMesh iteration nvlMesh = Inr (Some hcm)"
    using getHybridCubeMesh_outcomes [of iteration nvlMesh] by auto
  then show ?thesis
  proof cases
    case 1
    then show ?thesis by simp
  next
    case 2
    then show ?thesis using getHybridCubeMesh_Some [OF iter 2] by auto
  qed
qed

lemma cubeMesh_passes: "passesRecognition cubeMesh"
  by code_simp

text \<open>
  Which of the two happens depends on the order in which the neighbour sets are
  visited: in insertion order the search of rank 1 overwrites the entry rank 0 has filled
  for it, and the hybrid cube mesh itself fails the check later on.
\<close>

lemma cubeMesh_insertion_order:
  "getHybridCubeMesh insertion_order cubeMesh = Inl TorchCheckFailed"
  by code_simp

section \<open>Properties: packed vectors\<close>

lemma numelPerThread_eq: "numelPerThread = 8"
  by (simp add: numelPerThread_def kBytesPerThread_def)

lemma lane_cases:
  assumes "l < 8"
  obtains "l = 0" | "l = 1" | "l = 2" | "l = 3" | "l = 4" | "l = 5" | "l = 6" | "l = (7::nat)"
  using assms by linarith

lemma upt_0_4: "[0..<4] = [0, 1, 2, 3]"
  by (simp add: upt_rec)

lemma load128_unfold:
  "load128 mem i = [(mem ! i, mem ! (i + 1)), (mem ! (i + 2), mem ! (i + 3)),
                    (mem ! (i + 4), mem ! (i + 5)), (mem ! (i + 6), mem ! (i + 7))]"
  unfolding load128_def upt_0_4 by (simp add: eval_nat_numeral)

lemma store128_unfold:
  "store128 mem i val =
     mem[i := fst (val ! 0), i + 1 := snd (val ! 0), i + 2 := fst (val ! 1), i + 3 := snd (val ! 1),
         i + 4 := fst (val ! 2), i + 5 := snd (val ! 2), i + 6 := fst (val ! 3), i + 7 := snd (val ! 3)]"
  unfolding store128_def upt_0_4 by (simp add: eval_nat_numeral)

lemma lane_load128: "l < 8 \<Longrightarrow> lane (load128 mem i) l = mem ! (i + l)"
  by (erule lane_cases) (simp_all add: lane_def load128_unfold)

lemma lane_add_bf16x8:
  "l < 8 \<Longrightarrow> lane (add_bf16x8 hadd a b) l = hadd (lane a l) (lane b l)"
  by (erule lane_cases) (simp_all add: lane_def add_bf16x8_def bf16hadd2_def)

lemma lane_zero_bf16x8: "l < 8 \<Longrightarrow> lane (zero_bf16x8 zero) l = zero"
  by (erule lane_cases) (simp_all add: lane_def zero_bf16x8_def)

lemma lane_fold_add:
  "l < 8 \<Longrightarrow> lane (fold (\<lambda>v sums. add_bf16x8 hadd sums v) vals acc) l
     = foldl hadd (lane acc l) (map (\<lambda>v. lane v l) vals)"
  by (induction vals arbitrary: acc) (simp_all add: lane_add_bf16x8)

lemma lane_sumVectors:
  "l < 8 \<Longrightarrow> lane (sumVectors hadd zero vals) l = foldl hadd zero (map (\<lambda>v. lane v l) vals)"
  by (simp add: sumVectors_def lane_fold_add lane_zero_bf16x8)

lemma length_store128 [simp]: "length (store128 mem i val) = length mem"
  by (simp add: store128_unfold)

lemma nth_store128:
  assumes "p < length mem"
  shows "store128 mem i val ! p = (if i \<le> p \<and> p < i + 8 then lane val (p - i) else mem ! p)"
proof (cases "i \<le> p \<and> p < i + 8")
  case False
  then show ?thesis using assms by (auto simp add: store128_unfold nth_list_update)
next
  case True
  then obtain l where l: "p = i + l" "l < 8" by (metis add_diff_inverse_nat nat_add_left_cancel_less not_le)
  from l(2) show ?thesis
    using assms unfolding l(1)
    by (cases rule: lane_cases) (simp_all add: store128_unfold nth_list_update lane_def)
qed

lemma length_storeResult [simp]: "length (storeResult kAligned N input i sums) = length input"
proof -
  have "length (fold (\<lambda>ii inp. if i + ii < N then inp[i + ii := lane sums ii] else inp) ls input)
      = length input" for ls
    by (induction ls arbitrary: input) simp_all
  then show ?thesis by (simp add: storeResult_def streamStore128_def)
qed

lemma nth_guarded_fold:
  assumes "p < length input"
  shows "fold (\<lambda>ii inp. if i + ii < N then inp[i + ii := lane sums ii] else inp) [0..<n] input ! p
    = (if i \<le> p \<and> p < i + n \<and> p < N then lane sums (p - i) else input ! p)"
  using assms
proof (induction n)
  case 0
  then show ?case by auto
next
  case (Suc n)
  let ?f = "\<lambda>ii inp. if i + ii < N then inp[i + ii := lane sums ii] else inp"
  have len: "length (fold ?f [0..<n] input) = length input"
  proof -
    have "length (fold ?f ls m) = length m" for ls m
      by (induction ls arbitrary: m) simp_all
    then show ?thesis .
  qed
  show ?case
  proof (cases "p = i + n")
    case True
    then show ?thesis using Suc len by (simp add: nth_list_update)
  next
    case False
    then show ?thesis using Suc len by (auto simp: nth_list_update)
  qed
qed

lemma nth_storeResult:
  assumes "p < length input"
  shows "storeResult kAligned N input i sums ! p
    = (if i \<le> p \<and> p < i + 8 \<and> (kAligned \<or> p < N) then lane sums (p - i) else input ! p)"
  using assms
  by (auto simp: storeResult_def streamStore128_def nth_store128 nth_guarded_fold numelPerThread_eq)

section \<open>Properties: the grid-stride loop\<close>

lemma upt_shift: "map (\<lambda>i. i + n) [0..<m] = [n..<n + m]"
  using map_add_upt [of n m] by (simp only: add.commute [of m n])

lemma threadOffsets_eq:
  "threadOffsets gridDim blockDim = map (\<lambda>t. t * numelPerThread) [0..<gridDim * blockDim]"
proof (induction gridDim)
  case 0
  show ?case by (simp add: threadOffsets_def)
next
  case (Suc g)
  have a: "[0..<Suc g * blockDim] = [0..<g * blockDim] @ [g * blockDim..<g * blockDim + blockDim]"
  proof -
    have e: "Suc g * blockDim = g * blockDim + blockDim" by simp
    show ?thesis unfolding e by (rule upt_add_eq_append) simp
  qed
  have b: "map (\<lambda>threadIdx. (blockDim * g + threadIdx) * numelPerThread) [0..<blockDim]
      = map (\<lambda>t. t * numelPerThread) [g * blockDim..<g * blockDim + blockDim]"
  proof -
    have "map (\<lambda>t. t * numelPerThread) [g * blockDim..<g * blockDim + blockDim]
        = map (\<lambda>t. t * numelPerThread) (map (\<lambda>i. i + g * blockDim) [0..<blockDim])"
      by (simp only: upt_shift)
    also have "\<dots> = map (\<lambda>i. (i + g * blockDim) * numelPerThread) [0..<blockDim]"
      by (simp only: map_map comp_def)
    also have "\<dots> = map (\<lambda>threadIdx. (blockDim * g + threadIdx) * numelPerThread) [0..<blockDim]"
      by (rule map_cong) (simp_all add: add.commute mult.commute)
    finally show ?thesis by simp
  qed
  have "threadOffsets (Suc g) blockDim = threadOffsets g blockDim
      @ map (\<lambda>threadIdx. (blockDim * g + threadIdx) * numelPerThread) [0..<blockDim]"
    by (simp add: threadOffsets_def)
  then show ?case by (simp only: Suc b a map_append)
qed

lemma set_gridStride:
  "0 < stride \<Longrightarrow>
     set (gridStride stride bound off) = {i. \<exists>m. i = off + m * stride \<and> i < bound}"
proof (induction stride bound off rule: gridStride.induct)
  case (1 stride bound i)
  show ?case
  proof (cases "stride = 0 \<or> bound \<le> i")
    case True
    then have "gridStride stride bound i = []" by (subst gridStride.simps) simp
    moreover have "{j. \<exists>m. j = i + m * stride \<and> j < bound} = {}" using True "1.prems" by auto
    ultimately show ?thesis by simp
  next
    case False
    then have g: "gridStride stride bound i = i # gridStride stride bound (i + stride)"
      by (subst gridStride.simps) simp
    have ih: "set (gridStride stride bound (i + stride))
        = {j. \<exists>m. j = i + stride + m * stride \<and> j < bound}"
      using "1.IH" [OF False] "1.prems" by simp
    have "{j. \<exists>m. j = i + m * stride \<and> j < bound}
        = insert i {j. \<exists>m. j = i + stride + m * stride \<and> j < bound}"
    proof (intro set_eqI iffI)
      fix j assume "j \<in> {j. \<exists>m. j = i + m * stride \<and> j < bound}"
      then obtain m where m: "j = i + m * stride" "j < bound" by auto
      show "j \<in> insert i {j. \<exists>m. j = i + stride + m * stride \<and> j < bound}"
      proof (cases m)
        case 0
        then show ?thesis using m by simp
      next
        case (Suc m')
        then have "j = i + stride + m' * stride" using m by simp
        then show ?thesis using m(2) by auto
      qed
    next
      fix j assume "j \<in> insert i {j. \<exists>m. j = i + stride + m * stride \<and> j < bound}"
      then consider "j = i" | m where "j = i + stride + m * stride" "j < bound" by auto
      then show "j \<in> {j. \<exists>m. j = i + m * stride \<and> j < bound}"
      proof cases
        case 1
        then have "j = i + 0 * stride" "j < bound" using False by simp_all
        then show ?thesis by blast
      next
        case 2
        then have "j = i + Suc m * stride" by simp
        then show ?thesis using 2(2) by blast
      qed
    qed
    then show ?thesis using g ih by simp
  qed
qed

lemma distinct_gridStride:
  "0 < stride \<Longrightarrow> distinct (gridStride stride bound off)"
proof (induction stride bound off rule: gridStride.induct)
  case (1 stride bound i)
  show ?case
  proof (cases "stride = 0 \<or> bound \<le> i")
    case True
    then have "gridStride stride bound i = []" by (subst gridStride.simps) simp
    then show ?thesis by simp
  next
    case False
    then have g: "gridStride stride bound i = i # gridStride stride bound (i + stride)"
      by (subst gridStride.simps) simp
    have "i \<notin> set (gridStride stride bound (i + stride))"
      using set_gridStride [of stride bound "i + stride"] False "1.prems" by auto
    then show ?thesis using g "1.IH" [OF False] "1.prems" by simp
  qed
qed

lemma forEachThread_positions:
  "forEachThread gridDim blockDim bound body st = fold body (gridPositions gridDim blockDim bound) st"
proof -
  have "fold body (concat xss) st = fold (\<lambda>xs. fold body xs) xss st" for xss
    by (induction xss arbitrary: st) simp_all
  then show ?thesis
    by (simp add: forEachThread_def gridPositions_def fold_map comp_def)
qed

lemma gridPositions_eq:
  "gridPositions gridDim blockDim bound =
     concat (map (\<lambda>t. gridStride (gridDim * blockDim * 8) bound (t * 8)) [0..<gridDim * blockDim])"
proof -
  have s: "blockDim * gridDim * numelPerThread = gridDim * blockDim * 8"
    by (simp add: numelPerThread_eq)
  show ?thesis
    unfolding gridPositions_def threadOffsets_eq s map_map comp_def
    by (simp only: numelPerThread_eq)
qed

lemma multiples_split:
  assumes "0 < (T::nat)"
  shows "(\<Union>t\<in>{0..<T}. {i. \<exists>m. i = t * 8 + m * (T * 8) \<and> i < bound}) = {i. i < bound \<and> 8 dvd i}"
proof (intro set_eqI iffI)
  fix i assume "i \<in> (\<Union>t\<in>{0..<T}. {i. \<exists>m. i = t * 8 + m * (T * 8) \<and> i < bound})"
  then obtain t m where i: "i = t * 8 + m * (T * 8)" and b: "i < bound" by blast
  have "i = 8 * (t + m * T)" unfolding i by (simp add: algebra_simps)
  then have "8 dvd i" by (rule dvdI)
  then show "i \<in> {i. i < bound \<and> 8 dvd i}" using b by simp
next
  fix i assume "i \<in> {i. i < bound \<and> 8 dvd i}"
  then have b: "i < bound" and d: "8 dvd i" by simp_all
  from d obtain v where v: "i = 8 * v" by (rule dvdE)
  have "8 * v = 8 * ((v div T) * T + v mod T)" by (simp only: div_mult_mod_eq)
  also have "\<dots> = (v mod T) * 8 + (v div T) * (T * 8)" by (simp only: algebra_simps)
  finally have e: "i = (v mod T) * 8 + (v div T) * (T * 8)" unfolding v .
  have "v mod T < T" using assms by simp
  then have m: "v mod T \<in> {0..<T}" by simp
  have "i \<in> {i. \<exists>m. i = (v mod T) * 8 + m * (T * 8) \<and> i < bound}"
    using e b by blast
  then show "i \<in> (\<Union>t\<in>{0..<T}. {i. \<exists>m. i = t * 8 + m * (T * 8) \<and> i < bound})"
    using m by (rule_tac UN_I)
qed

lemma set_gridPositions:
  assumes "0 < gridDim * blockDim"
  shows "set (gridPositions gridDim blockDim bound) = {i. i < bound \<and> 8 dvd i}"
proof -
  have spos: "0 < gridDim * blockDim * 8" using assms by simp
  have "set (gridPositions gridDim blockDim bound)
      = (\<Union>t\<in>{0..<gridDim * blockDim}.
           set (gridStride (gridDim * blockDim * 8) bound (t * 8)))"
    unfolding gridPositions_eq by simp
  also have "\<dots> = (\<Union>t\<in>{0..<gridDim * blockDim}.
      {i. \<exists>m. i = t * 8 + m * (gridDim * blockDim * 8) \<and> i < bound})"
    by (simp only: set_gridStride [OF spos])
  also have "\<dots> = {i. i < bound \<and> 8 dvd i}"
    by (rule multiples_split [OF assms])
  finally show ?thesis .
qed

lemma distinct_concat_map:
  assumes "distinct xs" and "\<And>x. x \<in> set xs \<Longrightarrow> distinct (f x)"
    and "\<And>x y. x \<in> set xs \<Longrightarrow> y \<in> set xs \<Longrightarrow> x \<noteq> y \<Longrightarrow> set (f x) \<inter> set (f y) = {}"
  shows "distinct (concat (map f xs))"
  using assms
proof (induction xs)
  case Nil
  show ?case by simp
next
  case (Cons x xs)
  have "set (f x) \<inter> set (f y) = {}" if "y \<in> set xs" for y
  proof -
    have "x \<noteq> y" using Cons.prems(1) that by auto
    then show ?thesis using Cons.prems(3) [of x y] that by simp
  qed
  then have "set (f x) \<inter> (\<Union>y\<in>set xs. set (f y)) = {}" by blast
  moreover have "distinct (concat (map f xs))"
  proof (rule Cons.IH)
    show "distinct xs" using Cons.prems(1) by simp
    show "\<And>x. x \<in> set xs \<Longrightarrow> distinct (f x)" using Cons.prems(2) by simp
    show "\<And>x y. x \<in> set xs \<Longrightarrow> y \<in> set xs \<Longrightarrow> x \<noteq> y \<Longrightarrow> set (f x) \<inter> set (f y) = {}"
      using Cons.prems(3) by simp
  qed
  moreover have "distinct (f x)" using Cons.prems(2) by simp
  ultimately show ?case by simp
qed

lemma distinct_gridPositions:
  assumes "0 < gridDim * blockDim"
  shows "distinct (gridPositions gridDim blockDim bound)"
proof -
  define T where "T = gridDim * blockDim"
  have Tpos: "0 < T" using assms by (simp add: T_def)
  have spos: "0 < T * 8" using Tpos by simp
  have disj: "set (gridStride (T * 8) bound (t * 8)) \<inter> set (gridStride (T * 8) bound (u * 8)) = {}"
    if "t < T" "u < T" "t \<noteq> u" for t u
  proof (rule ccontr)
    assume "set (gridStride (T * 8) bound (t * 8)) \<inter> set (gridStride (T * 8) bound (u * 8)) \<noteq> {}"
    then obtain m n where "t * 8 + m * (T * 8) = u * 8 + n * (T * 8)"
      unfolding set_gridStride [OF spos] by blast
    then have "(t + m * T) * 8 = (u + n * T) * 8" by (simp only: algebra_simps)
    then have "t + m * T = u + n * T" by simp
    then have "(t + m * T) mod T = (u + n * T) mod T" by simp
    then show False using that by simp
  qed
  have "distinct (concat (map (\<lambda>t. gridStride (T * 8) bound (t * 8)) [0..<T]))"
  proof (rule distinct_concat_map)
    show "distinct [0..<T]" by simp
    show "\<And>x. x \<in> set [0..<T] \<Longrightarrow> distinct (gridStride (T * 8) bound (x * 8))"
      by (rule distinct_gridStride [OF spos])
    show "\<And>x y. x \<in> set [0..<T] \<Longrightarrow> y \<in> set [0..<T] \<Longrightarrow> x \<noteq> y \<Longrightarrow>
        set (gridStride (T * 8) bound (x * 8)) \<inter> set (gridStride (T * 8) bound (y * 8)) = {}"
      using disj by simp
  qed
  then show ?thesis unfolding gridPositions_eq T_def .
qed

lemma fold_pointwise:
  assumes len: "\<And>i m. length (body i m) = length m"
    and upd: "\<And>i m p. p < length m \<Longrightarrow> body i m ! p = (if P i p then f p else m ! p)"
  shows "length (fold body ps m) = length m"
    and "p < length m \<Longrightarrow> fold body ps m ! p = (if \<exists>i\<in>set ps. P i p then f p else m ! p)"
proof -
  show l: "length (fold body ps m) = length m" for ps m
    by (induction ps arbitrary: m) (simp_all add: len)
  show "p < length m \<Longrightarrow> fold body ps m ! p = (if \<exists>i\<in>set ps. P i p then f p else m ! p)"
  proof (induction ps arbitrary: m)
    case Nil
    show ?case by simp
  next
    case (Cons i ps)
    have "p < length (body i m)" using Cons.prems len by simp
    from Cons.IH [OF this] show ?case using upd [OF Cons.prems] by auto
  qed
qed

section \<open>Properties: one-shot all-reduce\<close>

lemma unat_of_nat_size_t: "x < 2 ^ 64 \<Longrightarrow> unat (of_nat x :: size_t) = x"
  by (simp add: unat_of_nat)

lemma unat_of_nat_uint32_t: "x < 2 ^ 32 \<Longrightarrow> unat (of_nat x :: uint32_t) = x"
  by (simp add: unat_of_nat)

lemma srcIndex_eq:
  assumes "0 < W" "W \<le> 8" "rank < W" "ii < W"
  shows "srcIndex W rank ii = (rank + ii) mod W"
proof -
  have w: "unat (of_nat W :: uint32_t) = W" using assms by (intro unat_of_nat_uint32_t) simp
  have r: "unat (of_nat rank :: size_t) = rank" using assms by (intro unat_of_nat_size_t) simp
  have i: "unat (of_nat ii :: size_t) = ii" using assms by (intro unat_of_nat_size_t) simp
  show ?thesis
    unfolding srcIndex_def
    using unat_srcRanks [of "of_nat W" "of_nat rank" "of_nat ii"] assms
    unfolding w r i by simp
qed

lemma srcSum_rotatedSum:
  assumes "0 < W" "W \<le> 8" "rank < W"
  shows "foldl hadd zero (map (\<lambda>ii. B ! srcIndex W rank ii ! p) [0..<W])
    = rotatedSum hadd zero W rank B p"
proof -
  have "map (\<lambda>ii. B ! srcIndex W rank ii ! p) [0..<W]
      = map (\<lambda>k. B ! ((rank + k) mod W) ! p) [0..<W]"
    by (rule map_cong) (simp_all add: srcIndex_eq [OF assms])
  then show ?thesis unfolding rotatedSum_def by (rule arg_cong)
qed

lemma length_oneShotBody [simp]:
  "length (oneShotBody hadd zero W al N rank B i input) = length input"
  by (simp add: oneShotBody_def Let_def)

lemma nth_oneShotBody:
  assumes "p < length input"
  shows "oneShotBody hadd zero W al N rank B i input ! p
    = (if i \<le> p \<and> p < i + 8 \<and> (al \<or> p < N)
       then foldl hadd zero (map (\<lambda>ii. B ! srcIndex W rank ii ! p) [0..<W])
       else input ! p)"
proof (cases "i \<le> p \<and> p < i + 8 \<and> (al \<or> p < N)")
  case False
  then show ?thesis using assms by (auto simp add: oneShotBody_def Let_def nth_storeResult)
next
  case True
  then have l: "p - i < 8" and e: "i + (p - i) = p" by auto
  have "lane (sumVectors hadd zero
          (map (\<lambda>ii. streamLoad128 (B ! srcIndex W rank ii) i) [0..<W])) (p - i)
      = foldl hadd zero (map (\<lambda>ii. B ! srcIndex W rank ii ! p) [0..<W])"
    by (simp add: lane_sumVectors [OF l] comp_def streamLoad128_def lane_load128 [OF l] e)
  then show ?thesis using True assms by (simp add: oneShotBody_def Let_def nth_storeResult)
qed

lemma covered_iff:
  assumes "8 dvd (Na::nat)"
  shows "(\<exists>i\<in>{i. i < Na \<and> 8 dvd i}. i \<le> p \<and> p < i + 8 \<and> G) \<longleftrightarrow> p < Na \<and> G"
proof
  assume "\<exists>i\<in>{i. i < Na \<and> 8 dvd i}. i \<le> p \<and> p < i + 8 \<and> G"
  then obtain i where i: "i < Na" "8 dvd i" "i \<le> p" "p < i + 8" "G" by auto
  obtain a where a: "Na = 8 * a" using assms by (rule dvdE)
  obtain b where b: "i = 8 * b" using i(2) by (rule dvdE)
  have "b < a" using i(1) a b by simp
  then have "i + 8 \<le> Na" unfolding a b by simp
  then show "p < Na \<and> G" using i by simp
next
  assume h: "p < Na \<and> G"
  let ?i = "8 * (p div 8)"
  have "?i \<le> p" by simp
  moreover have "p < ?i + 8"
  proof -
    have "p = ?i + p mod 8" by simp
    moreover have "p mod 8 < 8" by simp
    ultimately show ?thesis by linarith
  qed
  moreover have "?i < Na" using h \<open>?i \<le> p\<close> by linarith
  ultimately show "\<exists>i\<in>{i. i < Na \<and> 8 dvd i}. i \<le> p \<and> p < i + 8 \<and> G" using h by auto
qed

lemma oneShotAllReduceKernel_effect:
  assumes grid: "0 < gridDim * blockDim" and al: "8 dvd N_aligned"
    and r: "rank < length (tensors w)"
  shows "buffers (oneShotAllReduceKernel hadd zero W kAl gridDim blockDim N N_aligned rank w)
           = buffers w"
    and "outputs (oneShotAllReduceKernel hadd zero W kAl gridDim blockDim N N_aligned rank w)
           = outputs w"
    and "length (tensors (oneShotAllReduceKernel hadd zero W kAl gridDim blockDim N N_aligned rank w))
           = length (tensors w)"
    and "\<And>x. x \<noteq> rank \<Longrightarrow>
           tensors (oneShotAllReduceKernel hadd zero W kAl gridDim blockDim N N_aligned rank w) ! x
           = tensors w ! x"
    and "length (tensors (oneShotAllReduceKernel hadd zero W kAl gridDim blockDim N N_aligned rank w) ! rank)
           = length (tensors w ! rank)"
    and "\<And>p. p < length (tensors w ! rank) \<Longrightarrow>
           tensors (oneShotAllReduceKernel hadd zero W kAl gridDim blockDim N N_aligned rank w) ! rank ! p
           = (if p < N_aligned \<and> (kAl \<or> p < N)
              then foldl hadd zero (map (\<lambda>ii. buffers w ! srcIndex W rank ii ! p) [0..<W])
              else tensors w ! rank ! p)"
proof -
  let ?k = "oneShotAllReduceKernel hadd zero W kAl gridDim blockDim N N_aligned rank w"
  let ?body = "oneShotBody hadd zero W kAl N rank (buffers w)"
  let ?ps = "gridPositions gridDim blockDim N_aligned"
  have t: "tensors ?k = (tensors w)[rank := fold ?body ?ps (tensors w ! rank)]"
    by (simp add: oneShotAllReduceKernel_def forEachThread_positions)
  show "buffers ?k = buffers w" "outputs ?k = outputs w"
    by (simp_all add: oneShotAllReduceKernel_def)
  show "length (tensors ?k) = length (tensors w)" by (simp add: t)
  show "\<And>x. x \<noteq> rank \<Longrightarrow> tensors ?k ! x = tensors w ! x" by (simp add: t)
  note fp = fold_pointwise [where body = ?body and ps = ?ps
      and P = "\<lambda>i p. i \<le> p \<and> p < i + 8 \<and> (kAl \<or> p < N)"
      and f = "\<lambda>p. foldl hadd zero (map (\<lambda>ii. buffers w ! srcIndex W rank ii ! p) [0..<W])",
      OF length_oneShotBody nth_oneShotBody]
  show "length (tensors ?k ! rank) = length (tensors w ! rank)"
    using r fp(1) by (simp add: t)
  fix p assume p: "p < length (tensors w ! rank)"
  have "tensors ?k ! rank ! p = fold ?body ?ps (tensors w ! rank) ! p" using r by (simp add: t)
  also have "\<dots> = (if \<exists>i\<in>set ?ps. i \<le> p \<and> p < i + 8 \<and> (kAl \<or> p < N)
      then foldl hadd zero (map (\<lambda>ii. buffers w ! srcIndex W rank ii ! p) [0..<W])
      else tensors w ! rank ! p)"
    by (rule fp(2) [OF _ p]) simp
  also have "(\<exists>i\<in>set ?ps. i \<le> p \<and> p < i + 8 \<and> (kAl \<or> p < N))
      \<longleftrightarrow> p < N_aligned \<and> (kAl \<or> p < N)"
    unfolding set_gridPositions [OF grid] by (rule covered_iff [OF al])
  finally show "tensors ?k ! rank ! p
           = (if p < N_aligned \<and> (kAl \<or> p < N)
              then foldl hadd zero (map (\<lambda>ii. buffers w ! srcIndex W rank ii ! p) [0..<W])
              else tensors w ! rank ! p)" .
qed

lemma getLaunchConfig_bf16_launchable:
  fixes Na :: size_t
  assumes pos: "0 < unat Na" and mult: "unat Na mod 256 = 0" and small: "unat Na < 2 ^ 32"
  shows "\<exists>blocks threads. getLaunchConfig Na 2 = Inr (blocks, threads) \<and>
           \<not> launchRejected blocks threads \<and>
           0 < unat (dim_x blocks) * unat (dim_x threads)"
proof -
  have u2: "unat (2 :: size_t) = 2" by simp
  have r: "unat Na div (16 div unat (2 :: size_t)) + 1023 < 2 ^ 32"
  proof -
    have "unat Na div 8 \<le> unat Na" by simp
    then show ?thesis using small by (simp only: u2) simp
  qed
  have wr: "1 \<le> unat Na div 256"
  proof -
    have "256 dvd unat Na" using mult by (simp add: mod_eq_0_iff_dvd)
    then obtain a where a: "unat Na = 256 * a" by (rule dvdE)
    then have "0 < a" using pos by simp
    then show ?thesis unfolding a by simp
  qed
  have m: "unat Na mod (16 div unat (2 :: size_t) * 32) = 0" using mult by (simp only: u2) simp
  have e: "0 < unat (2 :: size_t)" "unat (2 :: size_t) \<le> 16" by simp_all
  obtain blocks threads where cfg: "getLaunchConfig Na 2 = Inr (blocks, threads)"
    and geo0: "if 16 div unat (2 :: size_t) * 1024 \<le> unat Na
       then unat (dim_x blocks) = min ((unat Na div (16 div unat (2 :: size_t)) + 1023) div 1024) 24 \<and>
            unat (dim_x threads) =
              min 1024 ((unat Na div (16 div unat (2 :: size_t) * 32) + unat (dim_x blocks) - 1)
                 div unat (dim_x blocks) * 32)
       else unat (dim_x blocks) = 1 \<and>
            unat (dim_x threads) = unat Na div (16 div unat (2 :: size_t) * 32) * 32"
    using getLaunchConfig_nat [OF e pos m r] by blast
  have c8: "16 div unat (2 :: size_t) = 8" and c256: "(8 :: nat) * 32 = 256"
    by simp_all
  let ?b = "unat (dim_x blocks)"
  let ?t = "unat (dim_x threads)"
  have bt: "0 < ?b \<and> 0 < ?t"
  proof (cases "16 div unat (2 :: size_t) * 1024 \<le> unat Na")
    case True
    have g: "?b = min ((unat Na div (16 div unat (2 :: size_t)) + 1023) div 1024) 24 \<and>
            ?t = min 1024 ((unat Na div (16 div unat (2 :: size_t) * 32) + ?b - 1) div ?b * 32)"
      using geo0 True by (simp only: if_True)
    have gb: "?b = min ((unat Na div 8 + 1023) div 1024) 24"
      using g unfolding c8 c256 by (rule conjunct1)
    have gt: "?t = min 1024 ((unat Na div 256 + ?b - 1) div ?b * 32)"
      using g unfolding c8 c256 by (rule conjunct2)
    have "8 * 1024 \<le> unat Na" using True by (simp only: u2) simp
    then have "1024 \<le> unat Na div 8" by simp
    then have "1 \<le> (unat Na div 8 + 1023) div 1024" by simp
    then have b: "0 < ?b" unfolding gb by simp
    have "?b \<le> unat Na div 256 + ?b - 1" using wr by simp
    then have "?b div ?b \<le> (unat Na div 256 + ?b - 1) div ?b" by (rule div_le_mono)
    moreover have "?b div ?b = 1" using b by simp
    ultimately have "1 \<le> (unat Na div 256 + ?b - 1) div ?b" by simp
    then have "0 < (unat Na div 256 + ?b - 1) div ?b * 32" by simp
    then have "0 < min 1024 ((unat Na div 256 + ?b - 1) div ?b * 32)" by simp
    then have "0 < ?t" by (simp only: gt)
    then show ?thesis using b by simp
  next
    case False
    have g: "?b = 1 \<and> ?t = unat Na div (16 div unat (2 :: size_t) * 32) * 32"
      using geo0 False by (simp only: if_False)
    have gb: "?b = 1" using g by (rule conjunct1)
    have gt: "?t = unat Na div 256 * 32" using g unfolding c8 c256 by (rule conjunct2)
    have "0 < unat Na div 256 * 32" using wr by simp
    then show ?thesis by (simp only: gb gt) simp
  qed
  have "\<not> launchRejected blocks threads"
    using bt by (auto simp: launchRejected_def)
  then show ?thesis using cfg bt by simp
qed

lemma checkInput_ok:
  assumes "dtype input = kBFloat16" "is_non_overlapping_and_dense input" "is_cuda input"
    "get_device input = rank"
  shows "checkInput input rank = None"
  using assms by (simp add: checkInput_def)

lemma alignUp_bf16:
  assumes n: "unat (numel input) < 2 ^ 31" and g: "0 < g" "g \<le> 2048" "unat (b :: size_t) = g"
  shows "alignUp (ucast (numel input)) (ucast b) = Inr (of_nat (alignedTo g (unat (numel input))))"
proof -
  obtain Na where a: "alignUp (ucast (numel input)) (ucast b) = Inr Na"
      and na: "unat Na = alignedTo g (unat (numel input))"
    using alignUp_nat [of "numel input" g b] n g by auto
  have "Na = of_nat (unat Na)" by simp
  then show ?thesis using a na by simp
qed

lemma launchConfig_bf16:
  assumes "0 < n" "alignedTo 256 n < 2 ^ 32"
  shows "\<exists>blocks threads.
     getLaunchConfig (of_nat (alignedTo 256 n)) 2 = Inr (blocks, threads) \<and>
     \<not> launchRejected blocks threads \<and> 0 < unat (dim_x blocks) * unat (dim_x threads)"
proof -
  let ?Na = "of_nat (alignedTo 256 n) :: size_t"
  have u: "unat ?Na = alignedTo 256 n" using assms(2) by (intro unat_of_nat_size_t) simp
  have "0 < unat ?Na" using alignedTo_bounds(1) [of 256 n] assms(1) u by simp
  moreover have "unat ?Na mod 256 = 0" unfolding u by (simp add: alignedTo_def)
  moreover have "unat ?Na < 2 ^ 32" using assms(2) u by simp
  ultimately show ?thesis by (rule getLaunchConfig_bf16_launchable)
qed

lemma oneShotAllReduce_enqueues:
  fixes kMax worldSize rank :: size_t
  assumes ok: "dtype input = kBFloat16" "is_non_overlapping_and_dense input" "is_cuda input"
      "get_device input = rank"
    and k: "unat kMax < 2 ^ 32"
    and fit: "alignedTo 256 (unat (numel input)) \<le> unat kMax div 2"
    and W: "2 \<le> unat worldSize" "unat worldSize \<le> 8"
    and cfg: "getLaunchConfig (of_nat (alignedTo 256 (unat (numel input)))) 2 = Inr (blocks, threads)"
    and lr: "\<not> launchRejected blocks threads"
  shows "oneShotAllReduce kMax input rank worldSize =
       ([StageInput (unat (numel input)),
         OneShotKernel (unat worldSize) (alignedTo 256 (unat (numel input)) = unat (numel input))
           blocks threads (unat (numel input)) (alignedTo 256 (unat (numel input)))], None)"
proof -
  let ?n = "unat (numel input)"
  let ?Na = "of_nat (alignedTo 256 ?n) :: size_t"
  have n31: "?n < 2 ^ 31"
  proof -
    have "?n \<le> alignedTo 256 ?n" by (rule alignedTo_bounds(1)) simp
    then show ?thesis using fit k by simp
  qed
  have es: "element_size input = 2" by (simp add: element_size_def ok(1))
  have npw: "kBytesPerThread div element_size input * kWarpSize = 256"
    by (simp only: element_size_def ok(1) numelPerWarp_bf16)
  have a: "alignUp (ucast (numel input)) (ucast (256 :: size_t)) = Inr ?Na"
    by (rule alignUp_bf16 [OF n31]) simp_all
  have na: "unat ?Na = alignedTo 256 ?n"
    using fit k by (intro unat_of_nat_size_t) simp
  have le: "?Na \<le> kMax div element_size input"
    using fit unfolding es word_le_nat_alt unat_div na by simp
  have Ww: "2 \<le> worldSize \<and> worldSize \<le> 8"
    using W by (simp add: word_le_nat_alt)
  have eqn: "(?Na = numel input) = (alignedTo 256 ?n = ?n)"
    using na by (metis word_unat_eq_iff)
  show ?thesis
    unfolding oneShotAllReduce_def Let_def npw
    using checkInput_ok [OF ok] a le cfg lr Ww na eqn by (simp add: es)
qed

section \<open>Properties: running the collective\<close>

lemma fold_max_const:
  "(\<And>x. x \<in> set xs \<Longrightarrow> x = (k::nat)) \<Longrightarrow> fold max xs a = (if xs = [] then a else max k a)"
proof (induction xs arbitrary: a)
  case Nil
  then show ?case by simp
next
  case (Cons x xs)
  have x: "x = k" using Cons.prems by simp
  have "fold max xs (max x a) = (if xs = [] then max x a else max k (max x a))"
    by (rule Cons.IH) (simp add: Cons.prems)
  then show ?case using x by (simp add: max.commute max.left_commute)
qed

lemma phaseColumn_uniform:
  assumes "\<And>r. r \<in> set rs \<Longrightarrow> j < length (F r)"
  shows "phaseColumn j (map F rs) = map (\<lambda>r. F r ! j) rs"
  using assms unfolding phaseColumn_def by (induction rs) simp_all

lemma lockStep_uniform:
  assumes len: "\<And>r. r \<in> set rs \<Longrightarrow> length (F r) = k" and ne: "rs \<noteq> []"
  shows "lockStep (map F rs) = concat (map (\<lambda>j. map (\<lambda>r. F r ! j) rs) [0..<k])"
proof -
  have m: "fold max (map length (map F rs)) 0 = k"
    using fold_max_const [of "map length (map F rs)" k 0] len ne by auto
  have e: "map (\<lambda>j. phaseColumn j (map F rs)) [0..<k] = map (\<lambda>j. map (\<lambda>r. F r ! j) rs) [0..<k]"
    by (rule map_cong) (simp_all add: phaseColumn_uniform len)
  show ?thesis unfolding lockStep_def m e ..
qed

lemma fold_phases: "fold (\<lambda>phase. phase) (map f rs) w = fold f rs w"
  by (induction rs arbitrary: w) simp_all

lemma fold_ranks_inv:
  assumes inv: "\<And>r w. I w \<Longrightarrow> r \<in> set rs \<Longrightarrow> I (ph r w)" and I: "I w"
  shows "I (fold ph rs w)"
proof -
  have "set qs \<subseteq> set rs \<Longrightarrow> I w \<Longrightarrow> I (fold ph qs w)" for qs
    by (induction qs arbitrary: w) (simp_all add: inv)
  then show ?thesis using I by simp
qed

lemma fold_ranks_keep:
  assumes keep: "\<And>r w. I w \<Longrightarrow> r \<in> set rs \<Longrightarrow> g (ph r w) = g w"
    and inv: "\<And>r w. I w \<Longrightarrow> r \<in> set rs \<Longrightarrow> I (ph r w)" and I: "I w"
  shows "g (fold ph rs w) = g w"
proof -
  have "set qs \<subseteq> set rs \<Longrightarrow> I w \<Longrightarrow> g (fold ph qs w) = g w" for qs
    by (induction qs arbitrary: w) (simp_all add: inv keep)
  then show ?thesis using I by simp
qed

lemma fold_ranks_nth:
  fixes ph :: "nat \<Rightarrow> 'w \<Rightarrow> 'w" and get :: "'w \<Rightarrow> 'b list" and F :: "nat \<Rightarrow> 'w \<Rightarrow> 'b"
  assumes upd: "\<And>r w. I w \<Longrightarrow> r \<in> set rs \<Longrightarrow> get (ph r w) = (get w)[r := F r w]"
    and ind: "\<And>r r' w. I w \<Longrightarrow> r \<in> set rs \<Longrightarrow> r' \<in> set rs \<Longrightarrow> r \<noteq> r' \<Longrightarrow> F r (ph r' w) = F r w"
    and inv: "\<And>r w. I w \<Longrightarrow> r \<in> set rs \<Longrightarrow> I (ph r w)"
    and d: "distinct rs" and I: "I w" and r: "r < length (get w)"
  shows "get (fold ph rs w) ! r = (if r \<in> set rs then F r w else get w ! r)"
proof -
  have "set qs \<subseteq> set rs \<Longrightarrow> distinct qs \<Longrightarrow> I w \<Longrightarrow> r < length (get w) \<Longrightarrow>
        get (fold ph qs w) ! r = (if r \<in> set qs then F r w else get w ! r)" for qs
  proof (induction qs arbitrary: w)
    case Nil
    then show ?case by simp
  next
    case (Cons a qs)
    have a: "a \<in> set rs" and qs: "set qs \<subseteq> set rs" and na: "a \<notin> set qs" and dq: "distinct qs"
      using Cons.prems by simp_all
    have g1: "get (ph a w) = (get w)[a := F a w]" by (rule upd [OF Cons.prems(3) a])
    have I1: "I (ph a w)" by (rule inv [OF Cons.prems(3) a])
    have r1: "r < length (get (ph a w))" using Cons.prems(4) g1 by simp
    have ih: "get (fold ph qs (ph a w)) ! r
        = (if r \<in> set qs then F r (ph a w) else get (ph a w) ! r)"
      by (rule Cons.IH [OF qs dq I1 r1])
    show ?case
    proof (cases "r \<in> set qs")
      case True
      then have "r \<noteq> a" "r \<in> set rs" using na qs by auto
      then have "F r (ph a w) = F r w" using ind [OF Cons.prems(3) _ a] by simp
      then show ?thesis using ih True by simp
    next
      case False
      then show ?thesis using ih g1 Cons.prems(4) by (cases "r = a") simp_all
    qed
  qed
  then show ?thesis using d I r by simp
qed

lemma nth_memcpy: "p < n \<Longrightarrow> n \<le> length src \<Longrightarrow> memcpy n src dst ! p = src ! p"
  by (simp add: memcpy_def nth_append)



lemma stage_all:
  assumes r: "r < length (buffers w)"
  shows "tensors (fold (stageInput n) [0..<W] w) = tensors w"
    and "outputs (fold (stageInput n) [0..<W] w) = outputs w"
    and "fresh (fold (stageInput n) [0..<W] w) = fresh w"
    and "length (buffers (fold (stageInput n) [0..<W] w)) = length (buffers w)"
    and "buffers (fold (stageInput n) [0..<W] w) ! r
       = (if r < W then memcpy n (tensors w ! r) (buffers w ! r) else buffers w ! r)"
proof -
  show "tensors (fold (stageInput n) [0..<W] w) = tensors w"
    by (rule fold_ranks_keep [where I = "\<lambda>w. True"]) (simp_all add: stageInput_def)
  show "outputs (fold (stageInput n) [0..<W] w) = outputs w"
    by (rule fold_ranks_keep [where I = "\<lambda>w. True"]) (simp_all add: stageInput_def)
  show "fresh (fold (stageInput n) [0..<W] w) = fresh w"
    by (rule fold_ranks_keep [where I = "\<lambda>w. True"]) (simp_all add: stageInput_def)
  show "length (buffers (fold (stageInput n) [0..<W] w)) = length (buffers w)"
    by (rule fold_ranks_keep [where I = "\<lambda>w. True" and g = "\<lambda>w. length (buffers w)"])
       (simp_all add: stageInput_def)
  have "buffers (fold (stageInput n) [0..<W] w) ! r
       = (if r \<in> set [0..<W] then memcpy n (tensors w ! r) (buffers w ! r) else buffers w ! r)"
    by (rule fold_ranks_nth [where I = "\<lambda>w. True" and get = buffers
          and F = "\<lambda>r w. memcpy n (tensors w ! r) (buffers w ! r)"])
       (simp_all add: stageInput_def r)
  then show "buffers (fold (stageInput n) [0..<W] w) ! r
       = (if r < W then memcpy n (tensors w ! r) (buffers w ! r) else buffers w ! r)"
    by simp
qed

lemma upt_0_2: "[0..<2] = [0, 1]"
  by (simp add: upt_rec)



lemma find_all_ok:
  assumes "\<And>r. r < W \<Longrightarrow> snd (f r) = None"
  shows "List.find (\<lambda>c. snd c \<noteq> None) (map f [0..<W]) = None"
  using assms by (simp add: find_None_iff)

lemma collective_runs:
  assumes calls: "\<And>r. r < W \<Longrightarrow>
      allReduce kMax (inputs ! r) (topoInfos ! r) (of_nat r) (of_nat W) algo = (ops r, None)"
    and len: "\<And>r. r < W \<Longrightarrow> length (concat (map (phasesOf hadd zero kMax r) (ops r))) = k"
    and W: "0 < W"
  shows "allReduceCollective hadd zero kMax inputs topoInfos W algo w =
      Inr (fold (\<lambda>phase. phase)
        (concat (map (\<lambda>j. map (\<lambda>r. concat (map (phasesOf hadd zero kMax r) (ops r)) ! j) [0..<W])
                     [0..<k])) w)"
proof -
  let ?calls = "map (\<lambda>rank. allReduce kMax (inputs ! rank) (topoInfos ! rank)
                                (of_nat rank) (of_nat W) algo) [0..<W]"
  have f: "List.find (\<lambda>c. snd c \<noteq> None) ?calls = None"
    by (rule find_all_ok) (simp add: calls)
  have m: "map (\<lambda>rank. concat (map (phasesOf hadd zero kMax rank) (fst (?calls ! rank)))) [0..<W]
      = map (\<lambda>r. concat (map (phasesOf hadd zero kMax r) (ops r))) [0..<W]"
    by (rule map_cong) (simp_all add: calls)
  have l: "lockStep (map (\<lambda>r. concat (map (phasesOf hadd zero kMax r) (ops r))) [0..<W])
      = concat (map (\<lambda>j. map (\<lambda>r. concat (map (phasesOf hadd zero kMax r) (ops r)) ! j) [0..<W])
                     [0..<k])"
    by (rule lockStep_uniform) (use len W in simp_all)
  show ?thesis
    unfolding allReduceCollective_def Let_def f m l by simp
qed

section \<open>Properties: the one-shot collective\<close>

lemma oneShot_all:
  assumes grid: "0 < gridDim * blockDim" and al: "8 dvd Na"
    and len: "length (tensors w) = W" and r: "r < W"
  shows "buffers (fold (oneShotAllReduceKernel hadd zero W kAl gridDim blockDim N Na) [0..<W] w)
           = buffers w"
    and "tensors (fold (oneShotAllReduceKernel hadd zero W kAl gridDim blockDim N Na) [0..<W] w) ! r
           = tensors (oneShotAllReduceKernel hadd zero W kAl gridDim blockDim N Na r w) ! r"
proof -
  let ?k = "oneShotAllReduceKernel hadd zero W kAl gridDim blockDim N Na"
  show "buffers (fold ?k [0..<W] w) = buffers w"
    by (rule fold_ranks_keep [where I = "\<lambda>w. True"]) (simp_all add: oneShotAllReduceKernel_def)
  have "tensors (fold ?k [0..<W] w) ! r
      = (if r \<in> set [0..<W] then tensors (?k r w) ! r else tensors w ! r)"
    by (rule fold_ranks_nth [where I = "\<lambda>w. length (tensors w) = W" and get = tensors
          and F = "\<lambda>r w. tensors (?k r w) ! r"])
       (simp_all add: oneShotAllReduceKernel_def len r)
  then show "tensors (fold ?k [0..<W] w) ! r = tensors (?k r w) ! r" using r by simp
qed

lemma rotatedSum_cong:
  assumes "0 < W" "\<And>s. s < W \<Longrightarrow> A ! s ! p = B ! s ! p"
  shows "rotatedSum hadd zero W rank A p = rotatedSum hadd zero W rank B p"
proof -
  have "map (\<lambda>k. A ! ((rank + k) mod W) ! p) [0..<W] = map (\<lambda>k. B ! ((rank + k) mod W) ! p) [0..<W]"
    by (rule map_cong) (simp_all add: assms)
  then show ?thesis unfolding rotatedSum_def by (rule arg_cong)
qed

lemma oneShot_collective:
  fixes kMax :: size_t
  assumes W: "2 \<le> W" "W \<le> 8"
    and k: "unat kMax < 2 ^ 32"
    and inp: "\<And>r. r < W \<Longrightarrow> dtype (inputs ! r) = kBFloat16 \<and>
        is_non_overlapping_and_dense (inputs ! r) \<and> is_cuda (inputs ! r) \<and>
        get_device (inputs ! r) = of_nat r \<and> unat (numel (inputs ! r)) = N"
    and N: "0 < N" "alignedTo 256 N \<le> unat kMax div 2"
    and mem: "length (tensors w) = W" "length (buffers w) = W"
      "\<And>r. r < W \<Longrightarrow> N \<le> length (tensors w ! r)"
  shows "\<exists>w'. allReduceCollective hadd zero kMax inputs topoInfos W ONE_SHOT w = Inr w' \<and>
      length (tensors w') = W \<and>
      (\<forall>r<W. length (tensors w' ! r) = length (tensors w ! r) \<and>
        (\<forall>p<length (tensors w ! r).
           tensors w' ! r ! p = (if p < N then rotatedSum hadd zero W r (tensors w) p
                                 else tensors w ! r ! p)))"
proof -
  let ?Na = "alignedTo 256 N"
  have na32: "?Na < 2 ^ 32" using N(2) k by simp
  obtain blocks threads where
    cfg: "getLaunchConfig (of_nat ?Na) 2 = Inr (blocks, threads)"
    and lr: "\<not> launchRejected blocks threads"
    and grid: "0 < unat (dim_x blocks) * unat (dim_x threads)"
    using launchConfig_bf16 [OF N(1) na32] by blast
  let ?ops = "[StageInput N, OneShotKernel W (?Na = N) blocks threads N ?Na]"
  let ?kern = "oneShotAllReduceKernel hadd zero W (?Na = N) (unat (dim_x blocks))
                 (unat (dim_x threads)) N ?Na"
  have uW: "unat (of_nat W :: size_t) = W" using W by (intro unat_of_nat_size_t) simp
  have calls: "allReduce kMax (inputs ! r) (topoInfos ! r) (of_nat r) (of_nat W) ONE_SHOT
      = (?ops, None)" if "r < W" for r
  proof -
    have i: "dtype (inputs ! r) = kBFloat16" "is_non_overlapping_and_dense (inputs ! r)"
      "is_cuda (inputs ! r)" "get_device (inputs ! r) = of_nat r"
      and n: "unat (numel (inputs ! r)) = N"
      using inp [OF that] by simp_all
    have "oneShotAllReduce kMax (inputs ! r) (of_nat r) (of_nat W) =
       ([StageInput (unat (numel (inputs ! r))),
         OneShotKernel (unat (of_nat W :: size_t))
           (alignedTo 256 (unat (numel (inputs ! r))) = unat (numel (inputs ! r)))
           blocks threads (unat (numel (inputs ! r))) (alignedTo 256 (unat (numel (inputs ! r))))],
        None)"
      by (rule oneShotAllReduce_enqueues [OF i k]) (use N W cfg lr in \<open>simp_all add: n uW\<close>)
    then show ?thesis by (simp add: allReduce_def n uW)
  qed
  have run: "allReduceCollective hadd zero kMax inputs topoInfos W ONE_SHOT w =
      Inr (fold (\<lambda>phase. phase)
        (concat (map (\<lambda>j. map (\<lambda>r. concat (map (phasesOf hadd zero kMax r) ?ops) ! j) [0..<W])
                     [0..<2])) w)"
    by (rule collective_runs [where ops = "\<lambda>r. ?ops"]) (use W calls in simp_all)
  define w1 where "w1 = fold (stageInput N) [0..<W] w"
  define w2 where "w2 = fold ?kern [0..<W] w1"
  have run2: "allReduceCollective hadd zero kMax inputs topoInfos W ONE_SHOT w = Inr w2"
    unfolding run w2_def w1_def by (simp add: upt_0_2 fold_phases)
  have t1: "tensors w1 = tensors w" unfolding w1_def by (rule stage_all(1) [of 0]) (use mem W in simp)
  have b1: "buffers w1 ! s ! p = tensors w ! s ! p" if "s < W" "p < N" for s p
  proof -
    have "buffers w1 ! s = memcpy N (tensors w ! s) (buffers w ! s)"
      unfolding w1_def using stage_all(5) [of s w N W] that mem by simp
    then show ?thesis using that mem(3) by (simp add: nth_memcpy)
  qed
  have al: "8 dvd ?Na" by (simp add: alignedTo_def)
  have lt1: "length (tensors w1) = W" using t1 mem by simp
  have len2: "length (tensors w2) = W"
    unfolding w2_def
    by (rule fold_ranks_keep [where I = "\<lambda>w. True" and g = "\<lambda>w. length (tensors w)", THEN trans])
       (simp_all add: oneShotAllReduceKernel_def lt1)
  have res: "length (tensors w2 ! r) = length (tensors w ! r) \<and>
        (\<forall>p<length (tensors w ! r).
           tensors w2 ! r ! p = (if p < N then rotatedSum hadd zero W r (tensors w) p
                                 else tensors w ! r ! p))" if r: "r < W" for r
  proof -
    have rl: "r < length (tensors w1)" using r lt1 by simp
    have e: "tensors w2 ! r = tensors (?kern r w1) ! r"
      unfolding w2_def by (rule oneShot_all(2) [OF grid al lt1 r])
    have l: "length (tensors w2 ! r) = length (tensors w ! r)"
      unfolding e using oneShotAllReduceKernel_effect(5) [OF grid al rl] t1 by simp
    have v: "tensors w2 ! r ! p = (if p < N then rotatedSum hadd zero W r (tensors w) p
                                 else tensors w ! r ! p)" if p: "p < length (tensors w ! r)" for p
    proof -
      have p1: "p < length (tensors w1 ! r)" using p t1 by simp
      have q: "tensors w2 ! r ! p =
          (if p < ?Na \<and> ((?Na = N) \<or> p < N)
           then foldl hadd zero (map (\<lambda>ii. buffers w1 ! srcIndex W r ii ! p) [0..<W])
           else tensors w1 ! r ! p)"
        unfolding e by (rule oneShotAllReduceKernel_effect(6) [OF grid al rl p1])
      have nle: "N \<le> ?Na" by (rule alignedTo_bounds(1)) simp
      have c: "(p < ?Na \<and> ((?Na = N) \<or> p < N)) = (p < N)" using nle by auto
      have q': "tensors w2 ! r ! p =
          (if p < N
           then foldl hadd zero (map (\<lambda>ii. buffers w1 ! srcIndex W r ii ! p) [0..<W])
           else tensors w1 ! r ! p)"
        using q by (simp only: c)
      show ?thesis
      proof (cases "p < N")
        case True
        have "foldl hadd zero (map (\<lambda>ii. buffers w1 ! srcIndex W r ii ! p) [0..<W])
            = rotatedSum hadd zero W r (buffers w1) p"
          by (rule srcSum_rotatedSum) (use W r in simp_all)
        also have "\<dots> = rotatedSum hadd zero W r (tensors w) p"
          by (rule rotatedSum_cong) (use W True b1 in simp_all)
        finally show ?thesis using q' True by simp
      next
        case False
        then show ?thesis using q' t1 by simp
      qed
    qed
    show ?thesis using l v by simp
  qed
  show ?thesis using run2 len2 res by simp
qed

text \<open>
  Claim C1.  Let \<open>W\<close> ranks, \<open>2 \<le> W \<le> 8\<close>, call \<^verbatim>\<open>allReduce\<close> with the one-shot algorithm on
  bf16 tensors of the same length \<open>N > 0\<close> whose warp-aligned length fits the peer buffer.
  Then no call raises, and afterwards the tensor of every rank \<open>r\<close> holds at every position
  \<open>p < N\<close> the sum in the order of the kernel: starting from zero, the values of the peers
  \<open>(r + k) mod W\<close> for \<open>k = 0, \<dots>, W - 1\<close> are added one after the other, each with the rounding
  addition \<open>hadd\<close>.
\<close>

theorem oneShot_rotated_sum:
  fixes kMax :: size_t
  assumes W: "2 \<le> W" "W \<le> 8"
    and k: "unat kMax < 2 ^ 32"
    and inp: "\<And>r. r < W \<Longrightarrow> dtype (inputs ! r) = kBFloat16 \<and>
        is_non_overlapping_and_dense (inputs ! r) \<and> is_cuda (inputs ! r) \<and>
        get_device (inputs ! r) = of_nat r \<and> unat (numel (inputs ! r)) = N"
    and N: "0 < N" "alignedTo 256 N \<le> unat kMax div 2"
    and mem: "length (tensors w) = W" "length (buffers w) = W"
      "\<And>r. r < W \<Longrightarrow> N \<le> length (tensors w ! r)"
  shows "\<exists>w'. allReduceCollective hadd zero kMax inputs topoInfos W ONE_SHOT w = Inr w' \<and>
      (\<forall>r<W. \<forall>p<N. tensors w' ! r ! p = rotatedSum hadd zero W r (tensors w) p)"
proof -
  obtain w' where run: "allReduceCollective hadd zero kMax inputs topoInfos W ONE_SHOT w = Inr w'"
    and res: "\<forall>r<W. length (tensors w' ! r) = length (tensors w ! r) \<and>
        (\<forall>p<length (tensors w ! r).
           tensors w' ! r ! p = (if p < N then rotatedSum hadd zero W r (tensors w) p
                                 else tensors w ! r ! p))"
    using oneShot_collective [OF W k inp N mem] by blast
  have "tensors w' ! r ! p = rotatedSum hadd zero W r (tensors w) p" if "r < W" "p < N" for r p
  proof -
    have "p < length (tensors w ! r)" using that mem(3) [of r] by simp
    then show ?thesis using res that by simp
  qed
  then show ?thesis using run by simp
qed

theorem oneShot_rotated_sum_witness:
  "\<exists>w'. allReduceCollective (\<lambda>a b. 2 * a + b) 0 1024 twoRankInputs [[], []] 2 ONE_SHOT twoRankWorld
          = Inr w' \<and>
        tensors w' ! 0 ! 0 = 12 \<and> tensors w' ! 1 ! 0 = 21 \<and>
        tensors w' ! 0 ! 7 = 96 \<and> tensors w' ! 1 ! 7 = 168"
proof -
  have inp: "dtype (twoRankInputs ! r) = kBFloat16 \<and>
        is_non_overlapping_and_dense (twoRankInputs ! r) \<and> is_cuda (twoRankInputs ! r) \<and>
        get_device (twoRankInputs ! r) = of_nat r \<and> unat (numel (twoRankInputs ! r)) = 8"
    if "r < 2" for r
    using less_2_cases [OF that] by (auto simp add: twoRankInputs_def)
  have mem: "8 \<le> length (tensors twoRankWorld ! r)" if "r < 2" for r
    using less_2_cases [OF that] by (auto simp add: twoRankWorld_def)
  have "\<exists>w'. allReduceCollective (\<lambda>a b. 2 * a + b) 0 1024 twoRankInputs [[], []] 2 ONE_SHOT
                twoRankWorld = Inr w' \<and>
      (\<forall>r<2. \<forall>p<8. tensors w' ! r ! p
          = rotatedSum (\<lambda>a b. 2 * a + b) 0 2 r (tensors twoRankWorld) p)"
    by (rule oneShot_rotated_sum [where N = 8])
       (simp_all add: inp mem alignedTo_def, simp_all add: twoRankWorld_def)
  then obtain w' where run: "allReduceCollective (\<lambda>a b. 2 * a + b) 0 1024 twoRankInputs [[], []]
        2 ONE_SHOT twoRankWorld = Inr w'"
    and res: "\<forall>r<2. \<forall>p<8. tensors w' ! r ! p
          = rotatedSum (\<lambda>a b. 2 * a + b) 0 2 r (tensors twoRankWorld) p"
    by blast
  have "tensors w' ! 0 ! 0 = 12" "tensors w' ! 1 ! 0 = 21" "tensors w' ! 0 ! 7 = 96"
    "tensors w' ! 1 ! 7 = 168"
    using res by (simp_all add: rotatedSum_def upt_0_2 twoRankWorld_def)
  then show ?thesis using run by simp
qed

section \<open>Properties: an unsupported algorithm\<close>

text \<open>
  Claim C10.  For an algorithm other than one-shot, two-shot and hybrid cube mesh (the
  enumeration leaves \<^verbatim>\<open>NONE\<close>), \<^verbatim>\<open>allReduce\<close> raises \<^verbatim>\<open>ValueError\<close> and has enqueued nothing: no
  staging copy and no kernel, so running what it enqueued leaves tensors and peer buffers
  as they were; the collective of such calls reports \<^verbatim>\<open>ValueError\<close>.
\<close>

theorem allReduce_unsupported_algo:
  assumes "algo \<noteq> ONE_SHOT" "algo \<noteq> TWO_SHOT" "algo \<noteq> HCM" and "0 < W"
  shows "allReduce kMax input topoInfo rank worldSize algo = ([], Some ValueError) \<and>
    fold (\<lambda>phase. phase)
      (concat (map (phasesOf hadd zero kMax r)
                 (fst (allReduce kMax input topoInfo rank worldSize algo)))) w = w \<and>
    allReduceCollective hadd zero kMax inputs topoInfos W algo w = Inl ValueError"
proof -
  have n: "algo = NONE" using assms(1-3) by (cases algo) simp_all
  have a: "allReduce kMax' input' topoInfo' rank' worldSize' algo = ([], Some ValueError)"
    for kMax' input' topoInfo' rank' worldSize'
    by (simp add: allReduce_def n)
  have "[0..<W] = 0 # [1..<W]" using assms(4) by (simp add: upt_rec)
  then have c: "allReduceCollective hadd zero kMax inputs topoInfos W algo w = Inl ValueError"
    by (simp add: allReduceCollective_def a)
  show ?thesis using a c by simp
qed

theorem allReduce_unsupported_algo_witness:
  "allReduce 1024 (twoRankInputs ! 0) [] 0 2 NONE = ([], Some ValueError) \<and>
   fold (\<lambda>phase. phase)
      (concat (map (phasesOf (+) 0 1024 0) (fst (allReduce 1024 (twoRankInputs ! 0) [] 0 2 NONE))))
      twoRankWorld = twoRankWorld \<and>
   allReduceCollective (+) 0 1024 twoRankInputs [[], []] 2 NONE twoRankWorld = Inl ValueError"
  using allReduce_unsupported_algo [of NONE 2 1024 "twoRankInputs ! 0" "[]" 0 2 "(+)" 0 0
      twoRankWorld twoRankInputs "[[], []]"]
  by simp

section \<open>Properties: the two-shot reduce-scatter\<close>

lemma twoShotPerRank_eq:
  assumes "0 < W" "W \<le> 8" "Na < 2 ^ 64"
  shows "twoShotPerRank W Na = Na div W"
proof -
  have w: "unat (of_nat W :: uint32_t) = W" using assms by (intro unat_of_nat_uint32_t) simp
  have n: "unat (of_nat Na :: size_t) = Na" using assms by (intro unat_of_nat_size_t) simp
  show ?thesis
    unfolding twoShotPerRank_def N_per_rank_def by (simp only: unat_div unat_ucast_up w n)
qed

lemma twoShotStart_eq:
  assumes "0 < W" "W \<le> 8" "Na < 2 ^ 64" "r < W"
  shows "twoShotStart W Na r = Na div W * r"
proof -
  have w: "unat (of_nat W :: uint32_t) = W" using assms by (intro unat_of_nat_uint32_t) simp
  have n: "unat (of_nat Na :: size_t) = Na" using assms by (intro unat_of_nat_size_t) simp
  have r: "unat (of_nat r :: size_t) = r" using assms by (intro unat_of_nat_size_t) simp
  have p: "unat (N_per_rank (of_nat W) (of_nat Na)) = Na div W"
    unfolding N_per_rank_def by (simp only: unat_div unat_ucast_up w n)
  have "Na div W * r \<le> Na div W * W" using assms(4) by simp
  also have "\<dots> \<le> Na" by simp
  finally have "Na div W * r < 2 ^ 64" using assms(3) by simp
  then have "unat (N_per_rank (of_nat W) (of_nat Na)) * unat (of_nat r :: size_t) < 2 ^ 64"
    by (simp only: p r)
  then have "unat (N_per_rank (of_nat W) (of_nat Na) * (of_nat r :: size_t))
      = unat (N_per_rank (of_nat W) (of_nat Na)) * unat (of_nat r :: size_t)"
    by (rule unat_mult_small)
  then show ?thesis unfolding twoShotStart_def N_start_def by (simp only: p r)
qed

lemma srcIndex_0:
  assumes "0 < W" "W \<le> 8" "r < W"
  shows "srcIndex W r 0 = r"
  using srcIndex_eq [OF assms(1,2,3) assms(1)] assms(3) by simp

lemma srcIndex_lt:
  assumes "0 < W" "W \<le> 8" "r < W" "ii < W"
  shows "srcIndex W r ii < W"
  using srcIndex_eq [OF assms] assms(1) by simp

text \<open>One iteration of the reduce-scatter loop.\<close>

lemma reduceScatterBody_effect:
  assumes W: "0 < W" "W \<le> 8" "r < W" and len: "length bufs = W"
  shows "length (fst (reduceScatterBody hadd zero W Na r i (bufs, input))) = W"
    and "\<And>s. s \<noteq> r \<Longrightarrow> fst (reduceScatterBody hadd zero W Na r i (bufs, input)) ! s = bufs ! s"
    and "length (fst (reduceScatterBody hadd zero W Na r i (bufs, input)) ! r) = length (bufs ! r)"
    and "length (snd (reduceScatterBody hadd zero W Na r i (bufs, input))) = length input"
    and "\<And>p. p < length (bufs ! r) \<Longrightarrow>
          fst (reduceScatterBody hadd zero W Na r i (bufs, input)) ! r ! p
          = (if twoShotStart W Na r + i \<le> p \<and> p < twoShotStart W Na r + i + 8
             then foldl hadd zero (map (\<lambda>ii. bufs ! srcIndex W r ii ! p) [0..<W])
             else bufs ! r ! p)"
    and "\<And>p. p < length input \<Longrightarrow>
          snd (reduceScatterBody hadd zero W Na r i (bufs, input)) ! p
          = (if twoShotStart W Na r + i \<le> p \<and> p < twoShotStart W Na r + i + 8
             then foldl hadd zero (map (\<lambda>ii. bufs ! srcIndex W r ii ! p) [0..<W])
             else input ! p)"
proof -
  let ?sums = "sumVectors hadd zero (map (\<lambda>ii. streamLoad128 (bufs ! srcIndex W r ii) (twoShotStart W Na r + i)) [0..<W])"
  have s0: "srcIndex W r 0 = r" by (rule srcIndex_0 [OF W])
  have f: "fst (reduceScatterBody hadd zero W Na r i (bufs, input))
      = bufs[r := store128 (bufs ! r) (twoShotStart W Na r + i) ?sums]"
    by (simp add: reduceScatterBody_def Let_def s0 streamStore128_def)
  have g: "snd (reduceScatterBody hadd zero W Na r i (bufs, input)) = store128 input (twoShotStart W Na r + i) ?sums"
    by (simp add: reduceScatterBody_def Let_def s0 streamStore128_def)
  have rl: "r < length bufs" using W len by simp
  have ln: "lane ?sums (p - (twoShotStart W Na r + i)) = foldl hadd zero (map (\<lambda>ii. bufs ! srcIndex W r ii ! p) [0..<W])"
    if "twoShotStart W Na r + i \<le> p" "p < twoShotStart W Na r + i + 8" for p
  proof -
    have l: "p - (twoShotStart W Na r + i) < 8" and e: "twoShotStart W Na r + i + (p - (twoShotStart W Na r + i)) = p" using that by auto
    show ?thesis
      by (simp add: lane_sumVectors [OF l] comp_def streamLoad128_def lane_load128 [OF l] e)
  qed
  show "length (fst (reduceScatterBody hadd zero W Na r i (bufs, input))) = W"
    by (simp add: f len)
  show "\<And>s. s \<noteq> r \<Longrightarrow> fst (reduceScatterBody hadd zero W Na r i (bufs, input)) ! s = bufs ! s"
    by (simp add: f)
  show "length (fst (reduceScatterBody hadd zero W Na r i (bufs, input)) ! r) = length (bufs ! r)"
    using rl by (simp add: f)
  show "length (snd (reduceScatterBody hadd zero W Na r i (bufs, input))) = length input"
    by (simp add: g)
  show "\<And>p. p < length (bufs ! r) \<Longrightarrow>
          fst (reduceScatterBody hadd zero W Na r i (bufs, input)) ! r ! p
          = (if twoShotStart W Na r + i \<le> p \<and> p < twoShotStart W Na r + i + 8
             then foldl hadd zero (map (\<lambda>ii. bufs ! srcIndex W r ii ! p) [0..<W])
             else bufs ! r ! p)"
    using rl by (simp add: f nth_store128 ln)
  show "\<And>p. p < length input \<Longrightarrow>
          snd (reduceScatterBody hadd zero W Na r i (bufs, input)) ! p
          = (if twoShotStart W Na r + i \<le> p \<and> p < twoShotStart W Na r + i + 8
             then foldl hadd zero (map (\<lambda>ii. bufs ! srcIndex W r ii ! p) [0..<W])
             else input ! p)"
    by (simp add: g nth_store128 ln)
qed

text \<open>The frame of the whole loop: nothing outside the shard of the rank changes.\<close>

lemma reduceScatter_frame:
  fixes Na :: nat and hadd :: "'a \<Rightarrow> 'a \<Rightarrow> 'a" and zero :: 'a and input :: "'a list"
  assumes W: "0 < W" "W \<le> 8" "r < W"
    and ps: "\<And>i. i \<in> set ps \<Longrightarrow> i + 8 \<le> Npr"
    and len: "length bufs = W"
  defines "st \<equiv> fold (reduceScatterBody hadd zero W Na r) ps (bufs, input)"
  shows "length (fst st) = W"
    and "\<And>s. s \<noteq> r \<Longrightarrow> fst st ! s = bufs ! s"
    and "length (fst st ! r) = length (bufs ! r)"
    and "length (snd st) = length input"
    and "\<And>p. p < length (bufs ! r) \<Longrightarrow> \<not> (twoShotStart W Na r \<le> p \<and> p < twoShotStart W Na r + Npr) \<Longrightarrow> fst st ! r ! p = bufs ! r ! p"
    and "\<And>p. p < length input \<Longrightarrow> \<not> (twoShotStart W Na r \<le> p \<and> p < twoShotStart W Na r + Npr) \<Longrightarrow> snd st ! p = input ! p"
proof -
  have "length (fst st) = W \<and> (\<forall>s. s \<noteq> r \<longrightarrow> fst st ! s = bufs ! s) \<and>
      length (fst st ! r) = length (bufs ! r) \<and> length (snd st) = length input \<and>
      (\<forall>p<length (bufs ! r). \<not> (twoShotStart W Na r \<le> p \<and> p < twoShotStart W Na r + Npr) \<longrightarrow> fst st ! r ! p = bufs ! r ! p) \<and>
      (\<forall>p<length input. \<not> (twoShotStart W Na r \<le> p \<and> p < twoShotStart W Na r + Npr) \<longrightarrow> snd st ! p = input ! p)"
    unfolding st_def using ps
  proof (induction ps rule: rev_induct)
    case Nil
    show ?case by (simp add: len)
  next
    case (snoc i ps)
    define t where "t = fold (reduceScatterBody hadd zero W Na r) ps (bufs, input)"
    have ih: "length (fst t) = W" "\<forall>s. s \<noteq> r \<longrightarrow> fst t ! s = bufs ! s"
      "length (fst t ! r) = length (bufs ! r)" "length (snd t) = length input"
      "\<forall>p<length (bufs ! r). \<not> (twoShotStart W Na r \<le> p \<and> p < twoShotStart W Na r + Npr) \<longrightarrow> fst t ! r ! p = bufs ! r ! p"
      "\<forall>p<length input. \<not> (twoShotStart W Na r \<le> p \<and> p < twoShotStart W Na r + Npr) \<longrightarrow> snd t ! p = input ! p"
      using snoc.IH snoc.prems unfolding t_def by simp_all
    have i: "i + 8 \<le> Npr" using snoc.prems by simp
    have e: "fold (reduceScatterBody hadd zero W Na r) (ps @ [i]) (bufs, input)
        = reduceScatterBody hadd zero W Na r i (fst t, snd t)"
      by (simp add: t_def)
    note b = reduceScatterBody_effect [where hadd = hadd and zero = zero and Na = Na and i = i
        and input = "snd t", OF W ih(1)]
    show ?case
      unfolding e using b ih i by auto
  qed
  then show "length (fst st) = W"
    and "\<And>s. s \<noteq> r \<Longrightarrow> fst st ! s = bufs ! s"
    and "length (fst st ! r) = length (bufs ! r)"
    and "length (snd st) = length input"
    and "\<And>p. p < length (bufs ! r) \<Longrightarrow> \<not> (twoShotStart W Na r \<le> p \<and> p < twoShotStart W Na r + Npr) \<Longrightarrow> fst st ! r ! p = bufs ! r ! p"
    and "\<And>p. p < length input \<Longrightarrow> \<not> (twoShotStart W Na r \<le> p \<and> p < twoShotStart W Na r + Npr) \<Longrightarrow> snd st ! p = input ! p"
    by simp_all
qed

lemma perRank_aligned:
  fixes W Na :: nat
  assumes "0 < W" "8 * W dvd Na"
  shows "8 dvd Na div W" and "Na div W * W = Na"
proof -
  obtain a where a: "Na = 8 * W * a" using assms(2) by (rule dvdE)
  have "Na div W = 8 * a" using assms(1) by (simp add: a)
  then show "8 dvd Na div W" by simp
  show "Na div W * W = Na" using assms(1) by (simp add: a)
qed

lemma position_fits:
  assumes "8 dvd (Npr :: nat)" "8 dvd i" "i < Npr"
  shows "i + 8 \<le> Npr"
proof -
  obtain a where a: "Npr = 8 * a" using assms(1) by (rule dvdE)
  obtain b where b: "i = 8 * b" using assms(2) by (rule dvdE)
  have "b < a" using assms(3) a b by simp
  then show ?thesis unfolding a b by simp
qed

lemma twoShotReduceScatter_frame:
  fixes hadd :: "'a \<Rightarrow> 'a \<Rightarrow> 'a" and zero :: 'a and input :: ptr
  assumes W: "0 < W" "W \<le> 8" "r < W"
    and grid: "0 < gridDim * blockDim"
    and al: "8 * W dvd Na" and small: "Na < 2 ^ 64"
    and len: "length (buffers w) = W"
  defines "w' \<equiv> twoShotReduceScatter hadd zero W gridDim blockDim input Na r w"
  shows "length (buffers w') = W"
    and "\<And>s. s \<noteq> r \<Longrightarrow> buffers w' ! s = buffers w ! s"
    and "length (buffers w' ! r) = length (buffers w ! r)"
    and "\<And>p. p < length (buffers w ! r) \<Longrightarrow> \<not> (r * (Na div W) \<le> p \<and> p < (r + 1) * (Na div W))
           \<Longrightarrow> buffers w' ! r ! p = buffers w ! r ! p"
proof -
  let ?Npr = "Na div W"
  let ?ps = "gridPositions gridDim blockDim ?Npr"
  let ?st = "fold (reduceScatterBody hadd zero W Na r) ?ps (buffers w, readPtr input r w)"
  have pr: "twoShotPerRank W Na = ?Npr" by (rule twoShotPerRank_eq [OF W(1,2) small])
  have q: "twoShotStart W Na r = ?Npr * r" by (rule twoShotStart_eq [OF W(1,2) small W(3)])
  have b: "buffers w' = fst ?st"
    unfolding w'_def twoShotReduceScatter_def forEachThread_positions pr
    by (cases input) (simp_all add: writePtr_def split: prod.split)
  have fits: "i + 8 \<le> ?Npr" if "i \<in> set ?ps" for i
    using that perRank_aligned(1) [OF W(1) al] unfolding set_gridPositions [OF grid]
    by (simp add: position_fits)
  note f = reduceScatter_frame [where hadd = hadd and zero = zero and Na = Na
      and input = "readPtr input r w" and ps = ?ps and Npr = ?Npr, OF W fits len]
  show "length (buffers w') = W" unfolding b by (rule f(1))
  show "\<And>s. s \<noteq> r \<Longrightarrow> buffers w' ! s = buffers w ! s" unfolding b by (rule f(2))
  show "length (buffers w' ! r) = length (buffers w ! r)" unfolding b by (rule f(3))
  fix p
  assume p: "p < length (buffers w ! r)" and n: "\<not> (r * ?Npr \<le> p \<and> p < (r + 1) * ?Npr)"
  have "\<not> (?Npr * r \<le> p \<and> p < ?Npr * r + ?Npr)"
    using n by (simp add: mult.commute add.commute)
  then show "buffers w' ! r ! p = buffers w ! r ! p"
    unfolding b using f(5) [unfolded q, OF _ p] by simp
qed

lemma shards_disjoint:
  assumes "r \<noteq> (r' :: nat)"
  shows "{r * Npr ..< (r + 1) * Npr} \<inter> {r' * Npr ..< (r' + 1) * Npr} = {}"
proof (cases "r < r'")
  case True
  then have "(r + 1) * Npr \<le> r' * Npr" by (intro mult_le_mono1) simp
  then show ?thesis by auto
next
  case False
  then have "r' < r" using assms by simp
  then have "(r' + 1) * Npr \<le> r * Npr" by (intro mult_le_mono1) simp
  then show ?thesis by auto
qed

section \<open>Properties: the two-shot collective\<close>

lemma blocks_disjoint:
  assumes "8 dvd (i::nat)" "8 dvd j" "q + i \<le> p" "p < q + i + 8" "q + j \<le> p" "p < q + j + 8"
  shows "i = j"
proof -
  obtain a where a: "i = 8 * a" using assms(1) by (rule dvdE)
  obtain b where b: "j = 8 * b" using assms(2) by (rule dvdE)
  have "a = b" using assms(3-6) unfolding a b by linarith
  then show ?thesis unfolding a b by simp
qed

text \<open>
  The values of the reduce-scatter loop: every position of a vector the loop goes through
  holds the sum over the peer buffers as they were before the loop.
\<close>

lemma reduceScatter_values:
  fixes Na :: nat and hadd :: "'a \<Rightarrow> 'a \<Rightarrow> 'a" and zero :: 'a and input :: "'a list"
  assumes W: "0 < W" "W \<le> 8" "r < W"
    and ps: "\<And>i. i \<in> set ps \<Longrightarrow> 8 dvd i \<and> i + 8 \<le> Npr" and d: "distinct ps"
    and len: "length bufs = W"
    and bound: "twoShotStart W Na r + Npr \<le> length (bufs ! r)"
  defines "st \<equiv> fold (reduceScatterBody hadd zero W Na r) ps (bufs, input)"
  shows "\<And>p. p < length (bufs ! r) \<Longrightarrow> fst st ! r ! p =
            (if \<exists>i\<in>set ps. twoShotStart W Na r + i \<le> p \<and> p < twoShotStart W Na r + i + 8
             then foldl hadd zero (map (\<lambda>ii. bufs ! srcIndex W r ii ! p) [0..<W])
             else bufs ! r ! p)"
    and "\<And>p. p < length input \<Longrightarrow> snd st ! p =
            (if \<exists>i\<in>set ps. twoShotStart W Na r + i \<le> p \<and> p < twoShotStart W Na r + i + 8
             then foldl hadd zero (map (\<lambda>ii. bufs ! srcIndex W r ii ! p) [0..<W])
             else input ! p)"
proof -
  let ?q = "twoShotStart W Na r"
  let ?S = "\<lambda>p. foldl hadd zero (map (\<lambda>ii. bufs ! srcIndex W r ii ! p) [0..<W])"
  have "(\<forall>p<length (bufs ! r). fst st ! r ! p =
            (if \<exists>i\<in>set ps. ?q + i \<le> p \<and> p < ?q + i + 8 then ?S p else bufs ! r ! p)) \<and>
        (\<forall>p<length input. snd st ! p =
            (if \<exists>i\<in>set ps. ?q + i \<le> p \<and> p < ?q + i + 8 then ?S p else input ! p))"
    unfolding st_def using ps d
  proof (induction ps rule: rev_induct)
    case Nil
    show ?case by simp
  next
    case (snoc i ps)
    define t where "t = fold (reduceScatterBody hadd zero W Na r) ps (bufs, input)"
    have psi: "\<And>j. j \<in> set ps \<Longrightarrow> 8 dvd j \<and> j + 8 \<le> Npr" and i8: "8 dvd i"
      and ifit: "i + 8 \<le> Npr"
      and ni: "i \<notin> set ps" and dp: "distinct ps"
      using snoc.prems by simp_all
    have fits: "\<And>j. j \<in> set ps \<Longrightarrow> j + 8 \<le> Npr" using psi by simp
    note fr = reduceScatter_frame [where hadd = hadd and zero = zero and Na = Na
        and input = input and ps = ps and Npr = Npr, OF W fits len, folded t_def]
    have ih1: "\<And>p. p < length (bufs ! r) \<Longrightarrow> fst t ! r ! p =
            (if \<exists>j\<in>set ps. ?q + j \<le> p \<and> p < ?q + j + 8 then ?S p else bufs ! r ! p)"
      and ih2: "\<And>p. p < length input \<Longrightarrow> snd t ! p =
            (if \<exists>j\<in>set ps. ?q + j \<le> p \<and> p < ?q + j + 8 then ?S p else input ! p)"
      using snoc.IH [OF psi dp] unfolding t_def by simp_all
    have e: "fold (reduceScatterBody hadd zero W Na r) (ps @ [i]) (bufs, input)
        = reduceScatterBody hadd zero W Na r i (fst t, snd t)"
      by (simp add: t_def)
    note b = reduceScatterBody_effect [where hadd = hadd and zero = zero and Na = Na and i = i
        and input = "snd t", OF W fr(1)]
    have same: "foldl hadd zero (map (\<lambda>ii. fst t ! srcIndex W r ii ! p) [0..<W]) = ?S p"
      if p: "p < length (bufs ! r)" "?q + i \<le> p" "p < ?q + i + 8" for p
    proof -
      have "fst t ! srcIndex W r ii ! p = bufs ! srcIndex W r ii ! p" if "ii < W" for ii
      proof (cases "srcIndex W r ii = r")
        case False
        then show ?thesis using fr(2) by simp
      next
        case True
        have n: "\<not> (\<exists>j\<in>set ps. ?q + j \<le> p \<and> p < ?q + j + 8)"
        proof
          assume "\<exists>j\<in>set ps. ?q + j \<le> p \<and> p < ?q + j + 8"
          then obtain j where j: "j \<in> set ps" "?q + j \<le> p" "p < ?q + j + 8" by blast
          have "i = j" using i8 psi [OF j(1)] p(2,3) j(2,3) by (intro blocks_disjoint [of i j ?q p]) simp_all
          then show False using ni j(1) by simp
        qed
        have "fst t ! r ! p = bufs ! r ! p" using ih1 [OF p(1)] by (simp only: n if_False)
        then show ?thesis using True by simp
      qed
      then have "map (\<lambda>ii. fst t ! srcIndex W r ii ! p) [0..<W]
          = map (\<lambda>ii. bufs ! srcIndex W r ii ! p) [0..<W]"
        by (intro map_cong) simp_all
      then show ?thesis by (rule arg_cong)
    qed
    have g1: "fst (reduceScatterBody hadd zero W Na r i (fst t, snd t)) ! r ! p =
            (if \<exists>j\<in>set (ps @ [i]). ?q + j \<le> p \<and> p < ?q + j + 8 then ?S p else bufs ! r ! p)"
      if p: "p < length (bufs ! r)" for p
    proof (cases "?q + i \<le> p \<and> p < ?q + i + 8")
      case True
      then show ?thesis using b(5) [of p] p fr(3) same [OF p] by auto
    next
      case False
      then show ?thesis using b(5) [of p] p fr(3) ih1 [OF p] by auto
    qed
    have g2: "snd (reduceScatterBody hadd zero W Na r i (fst t, snd t)) ! p =
            (if \<exists>j\<in>set (ps @ [i]). ?q + j \<le> p \<and> p < ?q + j + 8 then ?S p else input ! p)"
      if p: "p < length input" for p
    proof (cases "?q + i \<le> p \<and> p < ?q + i + 8")
      case True
      have pl: "p < length (bufs ! r)" using True bound ifit by simp
      show ?thesis using True b(6) [of p] p fr(4) same [OF pl] by auto
    next
      case False
      then show ?thesis using b(6) [of p] p fr(4) ih2 [OF p] by auto
    qed
    show ?case unfolding e using g1 g2 by simp
  qed
  then show "\<And>p. p < length (bufs ! r) \<Longrightarrow> fst st ! r ! p =
            (if \<exists>i\<in>set ps. ?q + i \<le> p \<and> p < ?q + i + 8 then ?S p else bufs ! r ! p)"
    and "\<And>p. p < length input \<Longrightarrow> snd st ! p =
            (if \<exists>i\<in>set ps. ?q + i \<le> p \<and> p < ?q + i + 8 then ?S p else input ! p)"
    by simp_all
qed

lemma shifted_covered:
  assumes "8 dvd (Npr::nat)"
  shows "(\<exists>i\<in>{i. i < Npr \<and> 8 dvd i}. q + i \<le> p \<and> p < q + i + 8) \<longleftrightarrow> q \<le> p \<and> p < q + Npr"
proof -
  have "(\<exists>i\<in>{i. i < Npr \<and> 8 dvd i}. q + i \<le> p \<and> p < q + i + 8)
      \<longleftrightarrow> (\<exists>i\<in>{i. i < Npr \<and> 8 dvd i}. i \<le> p - q \<and> p - q < i + 8 \<and> q \<le> p)"
    by (intro bex_cong refl) auto
  also have "\<dots> \<longleftrightarrow> p - q < Npr \<and> q \<le> p" by (rule covered_iff [OF assms])
  also have "\<dots> \<longleftrightarrow> q \<le> p \<and> p < q + Npr" by auto
  finally show ?thesis .
qed

lemma memOf_writePtr:
  "memOf ptr (writePtr ptr r m w) = (memOf ptr w)[r := m]"
  by (cases ptr) (simp_all add: memOf_def writePtr_def)

lemma twoShotReduceScatter_effect:
  fixes hadd :: "'a \<Rightarrow> 'a \<Rightarrow> 'a" and zero :: 'a and ptr :: ptr
  assumes W: "0 < W" "W \<le> 8" "r < W"
    and grid: "0 < gridDim * blockDim"
    and al: "8 * W dvd Na" and small: "Na < 2 ^ 64"
    and len: "length (buffers w) = W" and lenm: "length (memOf ptr w) = W"
    and bl: "Na \<le> length (buffers w ! r)"
  defines "w' \<equiv> twoShotReduceScatter hadd zero W gridDim blockDim ptr Na r w"
  shows "fresh w' = fresh w"
    and "ptr = TensorData \<Longrightarrow> outputs w' = outputs w"
    and "ptr = OutputData \<Longrightarrow> tensors w' = tensors w"
    and "length (memOf ptr w') = W"
    and "\<And>s. s \<noteq> r \<Longrightarrow> memOf ptr w' ! s = memOf ptr w ! s"
    and "length (memOf ptr w' ! r) = length (memOf ptr w ! r)"
    and "\<And>p. p < length (buffers w ! r) \<Longrightarrow> buffers w' ! r ! p =
           (if r * (Na div W) \<le> p \<and> p < (r + 1) * (Na div W)
            then rotatedSum hadd zero W r (buffers w) p else buffers w ! r ! p)"
    and "\<And>p. p < length (memOf ptr w ! r) \<Longrightarrow> memOf ptr w' ! r ! p =
           (if r * (Na div W) \<le> p \<and> p < (r + 1) * (Na div W)
            then rotatedSum hadd zero W r (buffers w) p else memOf ptr w ! r ! p)"
proof -
  let ?Npr = "Na div W"
  let ?ps = "gridPositions gridDim blockDim ?Npr"
  let ?st = "fold (reduceScatterBody hadd zero W Na r) ?ps (buffers w, memOf ptr w ! r)"
  have pr: "twoShotPerRank W Na = ?Npr" by (rule twoShotPerRank_eq [OF W(1,2) small])
  have q: "twoShotStart W Na r = r * ?Npr"
    using twoShotStart_eq [OF W(1,2) small W(3)] by (simp add: mult.commute)
  have q1: "r * ?Npr + ?Npr = (r + 1) * ?Npr" by simp
  have w': "w' = writePtr ptr r (snd ?st) (w\<lparr>buffers := fst ?st\<rparr>)"
    unfolding w'_def twoShotReduceScatter_def forEachThread_positions pr readPtr_def
    by (simp split: prod.split)
  have b: "buffers w' = fst ?st" unfolding w' by (cases ptr) (simp_all add: writePtr_def)
  have m: "memOf ptr w' = (memOf ptr w)[r := snd ?st]"
    unfolding w' memOf_writePtr by (cases ptr) (simp_all add: memOf_def)
  have a8: "8 dvd ?Npr" by (rule perRank_aligned(1) [OF W(1) al])
  have fits: "8 dvd i \<and> i + 8 \<le> ?Npr" if "i \<in> set ?ps" for i
    using that a8 unfolding set_gridPositions [OF grid] by (simp add: position_fits)
  have fits': "i + 8 \<le> ?Npr" if "i \<in> set ?ps" for i using fits [OF that] by simp
  have "(r + 1) * ?Npr \<le> W * ?Npr" using W(3) by (intro mult_le_mono1) simp
  also have "\<dots> \<le> Na" by (simp add: mult.commute)
  finally have top: "(r + 1) * ?Npr \<le> Na" .
  have bound: "twoShotStart W Na r + ?Npr \<le> length (buffers w ! r)"
    unfolding q q1 using top bl by simp
  note fr = reduceScatter_frame [where hadd = hadd and zero = zero and Na = Na
      and input = "memOf ptr w ! r" and ps = ?ps and Npr = ?Npr, OF W fits' len]
  note v = reduceScatter_values [where hadd = hadd and zero = zero and Na = Na
      and input = "memOf ptr w ! r" and ps = ?ps and Npr = ?Npr,
      OF W fits distinct_gridPositions [OF grid] len bound]
  have cov: "(\<exists>i\<in>set ?ps. twoShotStart W Na r + i \<le> p \<and> p < twoShotStart W Na r + i + 8)
      \<longleftrightarrow> r * ?Npr \<le> p \<and> p < (r + 1) * ?Npr" for p
    unfolding set_gridPositions [OF grid] shifted_covered [OF a8] q q1 ..
  have S: "foldl hadd zero (map (\<lambda>ii. buffers w ! srcIndex W r ii ! p) [0..<W])
      = rotatedSum hadd zero W r (buffers w) p" for p
    by (rule srcSum_rotatedSum [OF W])
  have rm: "r < length (memOf ptr w)" using W(3) lenm by simp
  show "fresh w' = fresh w" unfolding w' by (cases ptr) (simp_all add: writePtr_def)
  show "ptr = TensorData \<Longrightarrow> outputs w' = outputs w" unfolding w' by (simp add: writePtr_def)
  show "ptr = OutputData \<Longrightarrow> tensors w' = tensors w" unfolding w' by (simp add: writePtr_def)
  show "length (memOf ptr w') = W" unfolding m using lenm by simp
  show "\<And>s. s \<noteq> r \<Longrightarrow> memOf ptr w' ! s = memOf ptr w ! s" unfolding m by simp
  show "length (memOf ptr w' ! r) = length (memOf ptr w ! r)"
    unfolding m using rm fr(4) by simp
  show "\<And>p. p < length (buffers w ! r) \<Longrightarrow> buffers w' ! r ! p =
           (if r * ?Npr \<le> p \<and> p < (r + 1) * ?Npr
            then rotatedSum hadd zero W r (buffers w) p else buffers w ! r ! p)"
    unfolding b using v(1) unfolding cov S by simp
  show "\<And>p. p < length (memOf ptr w ! r) \<Longrightarrow> memOf ptr w' ! r ! p =
           (if r * ?Npr \<le> p \<and> p < (r + 1) * ?Npr
            then rotatedSum hadd zero W r (buffers w) p else memOf ptr w ! r ! p)"
    unfolding m using rm v(2) unfolding cov S by simp
qed

text \<open>
  Claim C6.  In the reduce-scatter loop of the two-shot kernel, rank \<open>r\<close> stores its sums to
  \<^verbatim>\<open>srcs[0]\<close>, which is its own peer buffer (\<open>srcIndex W r 0 = r\<close>), from
  \<^verbatim>\<open>N_start = N_per_rank * r\<close> on: after the loop every position \<open>p\<close> of
  \<open>[r * N_per_rank, (r + 1) * N_per_rank)\<close> in \<^verbatim>\<open>buffers[r]\<close>, and in the memory behind
  \<^verbatim>\<open>input\<close>, holds the sum over all peer buffers at \<open>p\<close> (in the rotated order of the rank);
  every other position of \<^verbatim>\<open>buffers[r]\<close> and of \<^verbatim>\<open>input\<close>, and the peer buffers of the other
  ranks, are as before.  The regions of two different ranks are disjoint.
\<close>

theorem reduceScatter_own_shard:
  fixes hadd :: "'a \<Rightarrow> 'a \<Rightarrow> 'a"
  assumes W: "2 \<le> W" "W \<le> 8" and r: "r < W" "r' < W" "r \<noteq> r'"
    and grid: "0 < gridDim * blockDim"
    and al: "8 * W dvd Na" and small: "Na < 2 ^ 64"
    and len: "length (buffers w) = W" "length (memOf input w) = W"
    and bl: "Na \<le> length (buffers w ! r)"
  shows "srcIndex W r 0 = r \<and>
     twoShotStart W Na r = twoShotPerRank W Na * r \<and>
     (\<forall>s<W. s \<noteq> r \<longrightarrow>
        buffers (twoShotReduceScatter hadd zero W gridDim blockDim input Na r w) ! s
        = buffers w ! s) \<and>
     (\<forall>p<length (buffers w ! r).
        buffers (twoShotReduceScatter hadd zero W gridDim blockDim input Na r w) ! r ! p
        = (if p \<in> {r * twoShotPerRank W Na ..< (r + 1) * twoShotPerRank W Na}
           then rotatedSum hadd zero W r (buffers w) p
           else buffers w ! r ! p)) \<and>
     (\<forall>p<length (memOf input w ! r).
        memOf input (twoShotReduceScatter hadd zero W gridDim blockDim input Na r w) ! r ! p
        = (if p \<in> {r * twoShotPerRank W Na ..< (r + 1) * twoShotPerRank W Na}
           then rotatedSum hadd zero W r (buffers w) p
           else memOf input w ! r ! p)) \<and>
     {r * twoShotPerRank W Na ..< (r + 1) * twoShotPerRank W Na}
       \<inter> {r' * twoShotPerRank W Na ..< (r' + 1) * twoShotPerRank W Na} = {}"
proof -
  have W0: "0 < W" using W by simp
  have pr: "twoShotPerRank W Na = Na div W" by (rule twoShotPerRank_eq [OF W0 W(2) small])
  have q: "twoShotStart W Na r = Na div W * r" by (rule twoShotStart_eq [OF W0 W(2) small r(1)])
  note f = twoShotReduceScatter_frame [where hadd = hadd and zero = zero and input = input,
      OF W0 W(2) r(1) grid al small len(1)]
  note e = twoShotReduceScatter_effect [where hadd = hadd and zero = zero and ptr = input,
      OF W0 W(2) r(1) grid al small len bl]
  have m: "(p \<in> {r * (Na div W) ..< (r + 1) * (Na div W)})
      = (r * (Na div W) \<le> p \<and> p < (r + 1) * (Na div W))" for p
    by simp
  have "srcIndex W r 0 = r" by (rule srcIndex_0 [OF W0 W(2) r(1)])
  moreover have "twoShotStart W Na r = twoShotPerRank W Na * r" unfolding pr q ..
  moreover have "\<forall>s<W. s \<noteq> r \<longrightarrow>
        buffers (twoShotReduceScatter hadd zero W gridDim blockDim input Na r w) ! s
        = buffers w ! s"
    using f(2) by simp
  moreover have "\<forall>p<length (buffers w ! r).
        buffers (twoShotReduceScatter hadd zero W gridDim blockDim input Na r w) ! r ! p
        = (if p \<in> {r * twoShotPerRank W Na ..< (r + 1) * twoShotPerRank W Na}
           then rotatedSum hadd zero W r (buffers w) p
           else buffers w ! r ! p)"
    unfolding pr m using e(7) by blast
  moreover have "\<forall>p<length (memOf input w ! r).
        memOf input (twoShotReduceScatter hadd zero W gridDim blockDim input Na r w) ! r ! p
        = (if p \<in> {r * twoShotPerRank W Na ..< (r + 1) * twoShotPerRank W Na}
           then rotatedSum hadd zero W r (buffers w) p
           else memOf input w ! r ! p)"
    unfolding pr m using e(8) by blast
  moreover have "{r * twoShotPerRank W Na ..< (r + 1) * twoShotPerRank W Na}
       \<inter> {r' * twoShotPerRank W Na ..< (r' + 1) * twoShotPerRank W Na} = {}"
    by (rule shards_disjoint [OF r(3)])
  ultimately show ?thesis by blast
qed

theorem reduceScatter_own_shard_witness:
  "srcIndex 2 1 0 = 1 \<and> twoShotStart 2 512 1 = 256 \<and>
   buffers (twoShotReduceScatter (\<lambda>a b. 2 * a + b) 0 2 1 32 TensorData 512 1 scatterWorld) ! 0
     = buffers scatterWorld ! 0 \<and>
   buffers (twoShotReduceScatter (\<lambda>a b. 2 * a + b) 0 2 1 32 TensorData 512 1 scatterWorld) ! 1 ! 300
     = 5900 \<and>
   tensors (twoShotReduceScatter (\<lambda>a b. 2 * a + b) 0 2 1 32 TensorData 512 1 scatterWorld) ! 1 ! 300
     = 5900 \<and>
   buffers (twoShotReduceScatter (\<lambda>a b. 2 * a + b) 0 2 1 32 TensorData 512 1 scatterWorld) ! 1 ! 255
     = 2255 \<and>
   tensors (twoShotReduceScatter (\<lambda>a b. 2 * a + b) 0 2 1 32 TensorData 512 1 scatterWorld) ! 1 ! 255
     = 0 \<and>
   {1 * twoShotPerRank 2 512 ..< (1 + 1) * twoShotPerRank 2 512}
     \<inter> {0 * twoShotPerRank 2 512 ..< (0 + 1) * twoShotPerRank 2 512} = {}"
proof -
  let ?h = "\<lambda>a b. 2 * a + (b :: int)"
  let ?w' = "twoShotReduceScatter ?h 0 2 1 32 TensorData 512 1 scatterWorld"
  have pr: "twoShotPerRank 2 512 = 256" by (simp add: twoShotPerRank_eq)
  have l: "length (buffers scatterWorld) = 2" "length (buffers scatterWorld ! 1) = 512"
    "length (memOf TensorData scatterWorld) = 2" "length (memOf TensorData scatterWorld ! 1) = 512"
    by (simp_all add: scatterWorld_def memOf_def)
  have m: "memOf TensorData v = tensors v" for v :: "int world" by (simp add: memOf_def)
  have b: "buffers scatterWorld ! 0 ! 300 = 1300" "buffers scatterWorld ! 1 ! 300 = 2300"
    "buffers scatterWorld ! 1 ! 255 = 2255" "tensors scatterWorld ! 1 ! 255 = 0"
    by (simp_all add: scatterWorld_def)
  have b': "buffers scatterWorld ! Suc 0 ! 300 = 2300" by (simp add: scatterWorld_def)
  have s: "rotatedSum ?h 0 2 1 (buffers scatterWorld) 300 = 5900"
    by (simp add: rotatedSum_def upt_0_2 b b')
  note t = reduceScatter_own_shard [where W = 2 and r = 1 and r' = 0 and gridDim = 1
      and blockDim = 32 and Na = 512 and w = scatterWorld and hadd = ?h and zero = 0
      and input = TensorData, unfolded pr l m]
  have l': "length (tensors scatterWorld) = 2" "length (tensors scatterWorld ! Suc 0) = 512"
    by (simp_all add: scatterWorld_def)
  have a1: "srcIndex 2 1 0 = 1" and a2: "twoShotStart 2 512 1 = 256"
    and a3: "buffers ?w' ! 0 = buffers scatterWorld ! 0"
    using t l' by simp_all
  have a4: "buffers ?w' ! 1 ! 300 = 5900" and a5: "tensors ?w' ! 1 ! 300 = 5900"
    and a6: "buffers ?w' ! 1 ! 255 = 2255" and a7: "tensors ?w' ! 1 ! 255 = 0"
    using t l' s b by simp_all
  show ?thesis using a1 a2 a3 a4 a5 a6 a7 unfolding pr by simp
qed








text \<open>One iteration of the all-gather loop, at one position of \<^verbatim>\<open>input\<close>.\<close>

lemma length_allGatherBody [simp]:
  "length (allGatherBody W Na r bufs i input) = length input"
proof -
  have "length (fold (\<lambda>ii inp. store128 inp (k ii) (v ii)) iis input) = length input" for k v iis
    by (induction iis arbitrary: input) simp_all
  then show ?thesis by (simp add: allGatherBody_def streamStore128_def Let_def)
qed





lemma buffers_writePtr [simp]: "buffers (writePtr ptr r m w) = buffers w"
  by (cases ptr) (simp_all add: writePtr_def)

lemma fresh_writePtr [simp]: "fresh (writePtr ptr r m w) = fresh w"
  by (cases ptr) (simp_all add: writePtr_def)














section \<open>Properties: the hybrid-cube-mesh collective\<close>













section \<open>Properties: the unaligned tail\<close>



end
